theory Spec2Isabelle
  imports Complex_Main
begin

section \<open>Double-precision values\<close>

text \<open>
  The solver of \<^verbatim>\<open>HCLasso.cpp\<close> computes on C++ \<^verbatim>\<open>double\<close>s. A double is modelled as
  a finite real, one of the two infinities, or a NaN. The model keeps the properties of
  binary64 arithmetic that decide control flow: an operation whose exact result is at
  or beyond the overflow threshold \<open>2\<^sup>1\<^sup>0\<^sup>2\<^sup>4 - 2\<^sup>9\<^sup>7\<^sup>0\<close> gives an infinity, a result between the
  largest double and that threshold gives the largest double, the invalid operations
  (\<open>\<infinity> - \<infinity>\<close>, \<open>0 \<times> \<infinity>\<close>, \<open>0 / 0\<close>, \<open>\<infinity> / \<infinity>\<close>) give NaN, NaN propagates, and every
  ordered comparison with a NaN is false. The literals of the source denote the doubles
  that the compiler reads them as. Rounding to 53 bits inside the range is not
  modelled: a result of at most the largest double in absolute value is exact. The
  sign of zero is not tracked (a finite non-zero value divided by zero is taken with
  the sign of the numerator).
\<close>

datatype dbl = Fin real | PInf | NInf | NaN

definition DBL_MAX :: real where
  "DBL_MAX = 2 ^ 1024 - 2 ^ 971"

definition OVERFLOW :: real where
  "OVERFLOW = 2 ^ 1024 - 2 ^ 970"

definition rnd :: "real \<Rightarrow> dbl" where
  "rnd r =
     (if OVERFLOW \<le> r then PInf
      else if r \<le> - OVERFLOW then NInf
      else if DBL_MAX < r then Fin DBL_MAX
      else if r < - DBL_MAX then Fin (- DBL_MAX)
      else Fin r)"

fun dneg :: "dbl \<Rightarrow> dbl" where
  "dneg (Fin a) = Fin (- a)"
| "dneg PInf = NInf"
| "dneg NInf = PInf"
| "dneg NaN = NaN"

fun dadd :: "dbl \<Rightarrow> dbl \<Rightarrow> dbl" where
  "dadd (Fin a) (Fin b) = rnd (a + b)"
| "dadd NaN _ = NaN"
| "dadd _ NaN = NaN"
| "dadd PInf NInf = NaN"
| "dadd NInf PInf = NaN"
| "dadd PInf _ = PInf"
| "dadd _ PInf = PInf"
| "dadd NInf _ = NInf"
| "dadd _ NInf = NInf"

definition dsub :: "dbl \<Rightarrow> dbl \<Rightarrow> dbl" where
  "dsub a b = dadd a (dneg b)"

fun dmul :: "dbl \<Rightarrow> dbl \<Rightarrow> dbl" where
  "dmul (Fin a) (Fin b) = rnd (a * b)"
| "dmul NaN _ = NaN"
| "dmul _ NaN = NaN"
| "dmul (Fin a) PInf = (if a = 0 then NaN else if 0 < a then PInf else NInf)"
| "dmul (Fin a) NInf = (if a = 0 then NaN else if 0 < a then NInf else PInf)"
| "dmul PInf (Fin b) = (if b = 0 then NaN else if 0 < b then PInf else NInf)"
| "dmul NInf (Fin b) = (if b = 0 then NaN else if 0 < b then NInf else PInf)"
| "dmul PInf PInf = PInf"
| "dmul PInf NInf = NInf"
| "dmul NInf PInf = NInf"
| "dmul NInf NInf = PInf"

fun ddiv :: "dbl \<Rightarrow> dbl \<Rightarrow> dbl" where
  "ddiv (Fin a) (Fin b) =
     (if b = 0 then (if a = 0 then NaN else if 0 < a then PInf else NInf)
      else rnd (a / b))"
| "ddiv NaN _ = NaN"
| "ddiv _ NaN = NaN"
| "ddiv (Fin a) PInf = Fin 0"
| "ddiv (Fin a) NInf = Fin 0"
| "ddiv PInf (Fin b) = (if 0 \<le> b then PInf else NInf)"
| "ddiv NInf (Fin b) = (if 0 \<le> b then NInf else PInf)"
| "ddiv PInf PInf = NaN"
| "ddiv PInf NInf = NaN"
| "ddiv NInf PInf = NaN"
| "ddiv NInf NInf = NaN"

text \<open>The comparisons \<^verbatim>\<open><\<close>, \<^verbatim>\<open><=\<close>, \<^verbatim>\<open>>\<close> and \<^verbatim>\<open>==\<close> of C++ on doubles.\<close>

fun dlt :: "dbl \<Rightarrow> dbl \<Rightarrow> bool" where
  "dlt (Fin a) (Fin b) = (a < b)"
| "dlt NaN _ = False"
| "dlt _ NaN = False"
| "dlt NInf NInf = False"
| "dlt NInf _ = True"
| "dlt PInf _ = False"
| "dlt (Fin a) PInf = True"
| "dlt (Fin a) NInf = False"

fun deq :: "dbl \<Rightarrow> dbl \<Rightarrow> bool" where
  "deq NaN _ = False"
| "deq _ NaN = False"
| "deq a b = (a = b)"

definition dle :: "dbl \<Rightarrow> dbl \<Rightarrow> bool" where
  "dle a b = (dlt a b \<or> deq a b)"

definition dgt :: "dbl \<Rightarrow> dbl \<Rightarrow> bool" where
  "dgt a b = dlt b a"

type_synonym vec = "dbl list"

section \<open>The linear-algebra primitives\<close>

text \<open>
  Modelled from the spec: the BLAS routines \<^verbatim>\<open>dcopy\<close>, \<^verbatim>\<open>daxpy\<close>, \<^verbatim>\<open>ddot\<close>, \<^verbatim>\<open>dasum\<close> and
  \<^verbatim>\<open>dgemv\<close> are declared in \<^verbatim>\<open>dynblas.h\<close> and implemented by the external BLAS library; the
  specification names them vector copy, scaled accumulate, dot product, sum of absolute
  values and matrix-vector product. Every call of the source uses unit strides. A buffer
  is the list of the doubles that start at the pointer; a routine called with length \<open>n\<close>
  reads the entries \<open>0..<n\<close>. Sums accumulate from index 0 upwards.
\<close>

definition dcopy :: "nat \<Rightarrow> vec \<Rightarrow> vec" where
  \<comment> \<open>Modelled from the spec: \<^verbatim>\<open>dcopy(n, x, 1, y, 1)\<close>, the new contents of \<open>y\<close>.\<close>
  "dcopy n xs = map (\<lambda>i. xs ! i) [0..<n]"

definition daxpy :: "nat \<Rightarrow> dbl \<Rightarrow> vec \<Rightarrow> vec \<Rightarrow> vec" where
  \<comment> \<open>Modelled from the spec: \<^verbatim>\<open>daxpy(n, a, x, 1, y, 1)\<close>, \<open>y := a\<cdot>x + y\<close>.\<close>
  "daxpy n a xs ys = map (\<lambda>i. dadd (dmul a (xs ! i)) (ys ! i)) [0..<n]"

definition ddot :: "nat \<Rightarrow> vec \<Rightarrow> vec \<Rightarrow> dbl" where
  \<comment> \<open>Modelled from the spec: \<^verbatim>\<open>ddot(n, x, 1, y, 1)\<close>.\<close>
  "ddot n xs ys = foldl (\<lambda>acc i. dadd acc (dmul (xs ! i) (ys ! i))) (Fin 0) [0..<n]"

definition fabs :: "dbl \<Rightarrow> dbl" where
  "fabs v = (case v of Fin a \<Rightarrow> Fin \<bar>a\<bar> | PInf \<Rightarrow> PInf | NInf \<Rightarrow> PInf | NaN \<Rightarrow> NaN)"

definition dasum :: "nat \<Rightarrow> vec \<Rightarrow> dbl" where
  \<comment> \<open>Modelled from the spec: \<^verbatim>\<open>dasum(n, x, 1)\<close>.\<close>
  "dasum n xs = foldl (\<lambda>acc i. dadd acc (fabs (xs ! i))) (Fin 0) [0..<n]"

definition dgemv :: "nat \<Rightarrow> vec \<Rightarrow> vec \<Rightarrow> vec" where
  \<comment> \<open>Modelled from the spec: \<^verbatim>\<open>dgemv("N", k, k, 1.0, A, k, x, 1, 0.0, y, 1)\<close>, \<open>y := A\<cdot>x\<close> for
      the column-major \<open>k \<times> k\<close> matrix \<open>A\<close>; the source calls it in this form only.\<close>
  "dgemv k A xs =
     map (\<lambda>i. foldl (\<lambda>acc j. dadd acc (dmul (xs ! j) (A ! (i + j * k)))) (Fin 0) [0..<k])
       [0..<k]"

section \<open>The solver's helper functions\<close>

definition MEM_OLD_VALUES :: nat where
  "MEM_OLD_VALUES = 10"

text \<open>
  The doubles that the literals \<^verbatim>\<open>1e-10\<close> and \<^verbatim>\<open>1e-3\<close> denote; \<^verbatim>\<open>1e10\<close>, \<^verbatim>\<open>0.5\<close> and the
  small integers are doubles as they stand.
\<close>

definition lit_1e_10 :: real where
  "lit_1e_10 = 7737125245533627 / 2 ^ 86"

definition lit_1e_3 :: real where
  "lit_1e_3 = 1152921504606847 / 2 ^ 60"

definition OPT_TOL :: dbl where
  "OPT_TOL = Fin lit_1e_10"

definition SUFF_DESC :: dbl where
  "SUFF_DESC = Fin lit_1e_3"

definition dabs :: "dbl \<Rightarrow> dbl" where
  "dabs v = (if dlt v (Fin 0) then dneg v else v)"

text \<open>\<^verbatim>\<open>SetInput\<close> returns the pair \<open>(Hess, beta)\<close> it writes.\<close>

definition SetInput :: "vec \<Rightarrow> vec \<Rightarrow> dbl \<Rightarrow> nat \<Rightarrow> vec \<times> vec" where
  "SetInput G w lambda k =
     (let beta = map (\<lambda>i. dsub (dmul (Fin 2) (w ! i)) lambda) [0..<k];
          ks = k * k;
          Hess = dcopy ks G;
          Hess = daxpy ks (Fin 1) G Hess
      in (Hess, beta))"

definition GetGrad :: "vec \<Rightarrow> vec \<Rightarrow> vec \<Rightarrow> nat \<Rightarrow> vec" where
  "GetGrad Hess beta xs k =
     (let grad = dgemv k Hess xs
      in daxpy k (Fin (- 1)) beta grad)"

definition ObjValue :: "vec \<Rightarrow> vec \<Rightarrow> vec \<Rightarrow> nat \<Rightarrow> dbl" where
  "ObjValue G beta xs k =
     (let tmp = dgemv k G xs;
          tmp = daxpy k (Fin (- 1)) beta tmp
      in ddot k xs tmp)"

definition GetAlpha :: "vec \<Rightarrow> vec \<Rightarrow> vec \<Rightarrow> vec \<Rightarrow> nat \<Rightarrow> dbl" where
  "GetAlpha xs xs_old gs gs_old k =
     (let tmp = dcopy k xs;
          tmp = daxpy k (Fin (- 1)) xs_old tmp;
          tmp1 = dcopy k gs;
          tmp1 = daxpy k (Fin (- 1)) gs_old tmp1;
          numerator = ddot k tmp tmp;
          denominator = ddot k tmp tmp1
      in ddiv numerator denominator)"

definition ProjHyperCube :: "vec \<Rightarrow> nat \<Rightarrow> vec" where
  "ProjHyperCube xs m =
     map (\<lambda>i. if dlt (xs ! i) (Fin 0) then Fin 0
              else if dgt (xs ! i) (Fin 1) then Fin 1
              else xs ! i) [0..<m]"

definition GetProjStep :: "vec \<Rightarrow> vec \<Rightarrow> dbl \<Rightarrow> nat \<Rightarrow> vec" where
  "GetProjStep xs gs alpha k =
     (let d = dcopy k xs;
          malpha = dneg alpha;
          d = daxpy k malpha gs d;
          d = ProjHyperCube d k
      in daxpy k (Fin (- 1)) xs d)"

definition GetDirectDerivative :: "vec \<Rightarrow> vec \<Rightarrow> nat \<Rightarrow> dbl" where
  "GetDirectDerivative gs d k = ddot k gs d"

definition NormOne :: "vec \<Rightarrow> nat \<Rightarrow> dbl" where
  "NormOne xs k = dasum k xs"

section \<open>One subproblem: \<^verbatim>\<open>HCLasso\<close>\<close>

text \<open>
  The variables that \<^verbatim>\<open>HCLasso\<close> carries from one pass of its \<^verbatim>\<open>while (1)\<close> loop to the next.
  \<open>Hess\<close> and \<open>beta\<close> are written once before the loop and are passed as arguments; \<open>d\<close>,
  \<open>tmp\<close> and \<open>tmp1\<close> are written in every pass before they are read. The buffers \<open>x_old\<close>
  and \<open>g_old\<close> hold whatever \<^verbatim>\<open>malloc\<close> or the solve before left in them until the first
  step is taken; they are read from the second pass on only, and start as empty lists here.
\<close>

record spg_state =
  s_x :: vec
  s_x_old :: vec
  s_g :: vec
  s_g_old :: vec
  s_old_fvals :: vec
  s_f :: dbl
  s_fmin :: dbl
  s_ahat :: vec
  s_fhat :: dbl
  s_iter :: nat

definition itermax :: nat where
  "itermax = 500"

text \<open>Lines 315--322: the step length \<open>alpha\<close> of the pass.\<close>

definition step_alpha :: "spg_state \<Rightarrow> nat \<Rightarrow> dbl" where
  "step_alpha s k =
     (if s_iter s = 0 then Fin 1
      else (let alpha = GetAlpha (s_x s) (s_x_old s) (s_g s) (s_g_old s) k
            in if dle alpha (Fin lit_1e_10) \<or> dgt alpha (Fin (10 ^ 10)) then Fin 1
               else alpha))"

text \<open>Lines 338--344: the initial guess of the step length.\<close>

definition init_t :: "spg_state \<Rightarrow> nat \<Rightarrow> dbl" where
  "init_t s k =
     (if s_iter s = 0
      then (let t = ddiv (Fin 1) (NormOne (s_g s) k) in if dgt t (Fin 1) then Fin 1 else t)
      else Fin 1)"

text \<open>Lines 348--355: the current objective value enters the memory of old values.\<close>

definition update_old_fvals :: "nat \<Rightarrow> dbl \<Rightarrow> vec \<Rightarrow> vec" where
  "update_old_fvals iter f old =
     (if iter < MEM_OLD_VALUES then old[iter := f]
      else map (\<lambda>i. old ! (i + 1)) [0..<MEM_OLD_VALUES - 1] @ [f])"

text \<open>Lines 358--362: the reference value \<open>f_ref\<close>.\<close>

definition get_f_ref :: "vec \<Rightarrow> dbl" where
  "get_f_ref old =
     foldl (\<lambda>f_ref i. if dlt f_ref (old ! i) then old ! i else f_ref) (old ! 0)
       [1..<MEM_OLD_VALUES]"

text \<open>
  Lines 377--408: the step size selection. The loop has no bound of its own, so it is a
  partial function: \<open>None\<close> is the loop that never leaves. The result is the triple
  \<open>(t, norm1_dx, red_f)\<close> with which the loop is left.
\<close>

partial_function (option) linesearch ::
  "dbl \<Rightarrow> dbl \<Rightarrow> dbl \<Rightarrow> dbl \<Rightarrow> dbl \<Rightarrow> dbl \<Rightarrow> dbl \<Rightarrow> (dbl \<times> dbl \<times> dbl) option" where
  "linesearch f f_ref Linear Quad Norm1_dx t factor =
     (let linear = dmul Linear factor;
          quad = dmul (dmul Quad factor) factor;
          red_f = dadd (dmul (Fin (1 / 2)) quad) linear;
          f_tmp = dadd f red_f
      in if dlt f_tmp (dadd f_ref (dmul SUFF_DESC linear))
         then Some (dmul t factor, dmul Norm1_dx factor, red_f)
         else (let factor = dmul factor (Fin (1 / 2))
               in if dlt (dmul Norm1_dx factor) OPT_TOL \<or> deq t (Fin 0)
                  then Some (Fin 0, Fin 0, Fin 0)
                  else linesearch f f_ref Linear Quad Norm1_dx t factor))"

declare linesearch.simps [code]

text \<open>
  Lines 410--471: the step is taken, the best value is kept, and the four stopping
  tests are made. The result is the new state and whether the loop is left.
\<close>

definition take_step ::
  "nat \<Rightarrow> vec \<Rightarrow> vec \<Rightarrow> spg_state \<Rightarrow> vec \<Rightarrow> dbl \<times> dbl \<times> dbl \<Rightarrow> spg_state \<times> bool" where
  "take_step k Hess beta s d r =
     (case r of (t, norm1_dx, red_f) \<Rightarrow>
       (let x_old = dcopy k (s_x s);
            x = daxpy k t d (s_x s);
            g_old = dcopy k (s_g s);
            g = GetGrad Hess beta x k;
            f = dadd (s_f s) red_f;
            iter = s_iter s + 1;
            better = dlt f (s_fmin s);
            s' = \<lparr> s_x = x, s_x_old = x_old, s_g = g, s_g_old = g_old,
                   s_old_fvals = s_old_fvals s, s_f = f,
                   s_fmin = (if better then f else s_fmin s),
                   s_ahat = (if better then dcopy k x else s_ahat s),
                   s_fhat = (if better then f else s_fhat s),
                   s_iter = iter \<rparr>;
            tmp = dcopy k x;
            tmp = daxpy k (Fin (- 1)) g tmp;
            tmp = ProjHyperCube tmp k;
            tmp = daxpy k (Fin (- 1)) x tmp
        in if dlt (NormOne tmp k) OPT_TOL then (s', True)
           else if dlt norm1_dx OPT_TOL then (s', True)
           else if dlt (dabs red_f) OPT_TOL then (s', True)
           else if iter > itermax then (s', True)
           else (s', False)))"

text \<open>One pass of the \<^verbatim>\<open>while (1)\<close> loop of lines 312--472.\<close>

definition spg_iter :: "nat \<Rightarrow> vec \<Rightarrow> vec \<Rightarrow> spg_state \<Rightarrow> (spg_state \<times> bool) option" where
  "spg_iter k Hess beta s =
     (let alpha = step_alpha s k;
          d = GetProjStep (s_x s) (s_g s) alpha k;
          gtd = GetDirectDerivative (s_g s) d k
      in if dgt gtd (dneg OPT_TOL) then Some (s, True)
         else (let t = init_t s k;
                   old = update_old_fvals (s_iter s) (s_f s) (s_old_fvals s);
                   f_ref = get_f_ref old;
                   Linear = dmul t gtd;
                   tmp = dgemv k Hess d;
                   Quad = ddot k d tmp;
                   Quad = dmul (dmul Quad t) t;
                   Norm1_dx = dmul t (NormOne d k)
               in case linesearch (s_f s) f_ref Linear Quad Norm1_dx t (Fin 1) of
                    None \<Rightarrow> None
                  | Some r \<Rightarrow> Some (take_step k Hess beta (s\<lparr>s_old_fvals := old\<rparr>) d r)))"

partial_function (option) spg_loop :: "nat \<Rightarrow> vec \<Rightarrow> vec \<Rightarrow> spg_state \<Rightarrow> spg_state option" where
  "spg_loop k Hess beta s =
     (case spg_iter k Hess beta s of
        None \<Rightarrow> None
      | Some (s', stop) \<Rightarrow> if stop then Some s' else spg_loop k Hess beta s')"

declare spg_loop.simps [code]

text \<open>Lines 277--297: the state in which the loop is entered.\<close>

definition spg_init :: "vec \<Rightarrow> vec \<Rightarrow> vec \<Rightarrow> dbl \<Rightarrow> nat \<Rightarrow> vec \<times> vec \<times> spg_state" where
  "spg_init G w a0 lambda k =
     (let old_fvals = replicate MEM_OLD_VALUES (Fin (- DBL_MAX));
          (Hess, beta) = SetInput G w lambda k;
          x = dcopy k a0;
          g = GetGrad Hess beta x k;
          f = ObjValue G beta x k;
          fmin = f
      in (Hess, beta,
          \<lparr> s_x = x, s_x_old = [], s_g = g, s_g_old = [], s_old_fvals = old_fvals,
            s_f = f, s_fmin = fmin, s_ahat = dcopy k x, s_fhat = fmin, s_iter = 0 \<rparr>))"

text \<open>\<^verbatim>\<open>HCLasso\<close> returns what it leaves in \<open>ahat\<close> and \<open>fhat[0]\<close>.\<close>

definition HCLasso :: "vec \<Rightarrow> vec \<Rightarrow> vec \<Rightarrow> dbl \<Rightarrow> nat \<Rightarrow> (vec \<times> dbl) option" where
  "HCLasso G w a0 lambda k =
     (case spg_init G w a0 lambda k of (Hess, beta, s0) \<Rightarrow>
        (case spg_loop k Hess beta s0 of
           None \<Rightarrow> None
         | Some s \<Rightarrow> Some (s_ahat s, s_fhat s)))"

section \<open>The batch: \<^verbatim>\<open>spawn_threads\<close> and \<^verbatim>\<open>RHLasso\<close>\<close>

text \<open>
  \<^verbatim>\<open>spawn_threads\<close> obtains eleven scratch buffers with \<^verbatim>\<open>malloc\<close>. Which of these calls
  gave a buffer is an input of the model: a flag for every buffer, false when \<^verbatim>\<open>malloc\<close>
  returned \<^verbatim>\<open>NULL\<close>. The test of line 492 for a \<^verbatim>\<open>NULL\<close> buffer has an empty body (the call
  that reported the failure is commented out), so it has no counterpart below. With
  \<^verbatim>\<open>MAX_NUM_THREADS\<close> equal to 1 and the \<^verbatim>\<open>omp parallel\<close> pragma commented out,
  \<^verbatim>\<open>omp_get_thread_num()\<close> is 0 and every solve uses the buffers at offset 0.
\<close>

record scratch =
  Hess_ok :: bool
  beta_ok :: bool
  x_ok :: bool
  x_old_ok :: bool
  g_ok :: bool
  g_old_ok :: bool
  dsct_ok :: bool
  old_fvals_ok :: bool
  tmp_ok :: bool
  tmp1_ok :: bool
  fhat_ok :: bool

text \<open>
  A solve that reads or writes through a \<^verbatim>\<open>NULL\<close> buffer has undefined behaviour; the model
  gives this outcome the name \<open>NullPointerAccess\<close>. \<open>null_access\<close> tells whether a solve
  gets there (\<open>Some True\<close>), runs without touching a \<^verbatim>\<open>NULL\<close> buffer (\<open>Some False\<close>), or
  hangs before it could touch one (\<open>None\<close>). It follows the order of \<^verbatim>\<open>HCLasso\<close>:

  \<^item> lines 282--297 write \<open>old_fvals\<close> and \<open>fhat\<close>, and, through loops and BLAS calls over \<open>k\<close>
    or \<open>k \<cdot> k\<close> entries, \<open>beta\<close>, \<open>Hess\<close>, \<open>x\<close>, \<open>g\<close> and \<open>tmp\<close>; line 325 of the first pass writes
    the direction \<open>d\<close>, the buffer \<open>dsct\<close>. A loop or a BLAS call over 0 entries touches
    nothing;
  \<^item> a first pass that leaves the loop at the test of line 331 touches no other buffer;
  \<^item> otherwise the step size selection runs (on scalars), and lines 420 and 431 write
    \<open>x_old\<close> and \<open>g_old\<close>;
  \<^item> if the loop goes on, line 318 of the second pass calls \<^verbatim>\<open>GetAlpha\<close>, which writes \<open>tmp1\<close>.
    From there on every buffer has been used.
\<close>

datatype fault = NullPointerAccess

definition null_access :: "scratch \<Rightarrow> vec \<Rightarrow> vec \<Rightarrow> vec \<Rightarrow> dbl \<Rightarrow> nat \<Rightarrow> bool option" where
  "null_access sc G w a0 lambda k =
     (if \<not> (old_fvals_ok sc \<and> fhat_ok sc \<and>
             (k = 0 \<or> (beta_ok sc \<and> Hess_ok sc \<and> x_ok sc \<and> g_ok sc \<and> tmp_ok sc \<and> dsct_ok sc)))
      then Some True
      else (case spg_init G w a0 lambda k of (Hess, beta, s0) \<Rightarrow>
              (let d = GetProjStep (s_x s0) (s_g s0) (step_alpha s0 k) k;
                   gtd = GetDirectDerivative (s_g s0) d k
               in if dgt gtd (dneg OPT_TOL) then Some False
                  else (case spg_iter k Hess beta s0 of
                          None \<Rightarrow> None
                        | Some (s1, stop) \<Rightarrow>
                            if \<not> (x_old_ok sc \<and> g_old_ok sc) then Some True
                            else if stop then Some False
                            else Some (\<not> tmp1_ok sc)))))"

text \<open>The write of \<open>k\<close> doubles at \<^verbatim>\<open>Anew + j * k\<close>; \<open>buf\<close> holds at least \<open>off + length vs\<close> doubles.\<close>

definition write_at :: "vec \<Rightarrow> nat \<Rightarrow> vec \<Rightarrow> vec" where
  "write_at buf off vs = take off buf @ vs @ drop (off + length vs) buf"

text \<open>
  The \<^verbatim>\<open>for\<close> loop of lines 503--513, entered with the given \<open>j\<close>, \<open>Anew\<close> and \<open>loss\<close>. The solve
  of a column that touches no \<^verbatim>\<open>NULL\<close> buffer is the solve \<^verbatim>\<open>HCLasso\<close> of the section before.
  \<open>None\<close> is a call that never returns.
\<close>

function batch_loop ::
  "scratch \<Rightarrow> vec \<Rightarrow> vec \<Rightarrow> vec \<Rightarrow> dbl \<Rightarrow> nat \<Rightarrow> nat \<Rightarrow> nat \<Rightarrow> vec \<Rightarrow> dbl
     \<Rightarrow> (fault + vec \<times> dbl) option" where
  "batch_loop sc G W A lambda k d j Anew loss =
     (if j < d
      then (case null_access sc G (drop (j * k) W) (drop (j * k) A) lambda k of
              None \<Rightarrow> None
            | Some True \<Rightarrow> Some (Inl NullPointerAccess)
            | Some False \<Rightarrow>
                (case HCLasso G (drop (j * k) W) (drop (j * k) A) lambda k of
                   None \<Rightarrow> None
                 | Some (ahat, fhat) \<Rightarrow>
                     batch_loop sc G W A lambda k d (j + 1)
                       (write_at Anew (j * k) ahat) (dadd loss fhat)))
      else Some (Inr (Anew, loss)))"
  by pat_completeness auto
termination
  by (relation "measure (\<lambda>(sc, G, W, A, lambda, k, d, j, Anew, loss). d - j)") auto

definition spawn_threads ::
  "scratch \<Rightarrow> vec \<Rightarrow> vec \<Rightarrow> vec \<Rightarrow> dbl \<Rightarrow> nat \<Rightarrow> nat \<Rightarrow> vec \<Rightarrow> (fault + vec \<times> dbl) option" where
  "spawn_threads sc G W A lambda k d Anew =
     batch_loop sc G W A lambda k d 0 Anew (Fin 0)"

text \<open>
  An \<^verbatim>\<open>Rcpp::NumericMatrix\<close>: its two dimensions and its values in column-major order.
  \<^verbatim>\<open>RHLasso\<close> takes \<open>k\<close> and \<open>d\<close> from \<open>Winp\<close> and passes the value pointers of its three
  matrices on; \<open>lambda\<close> is the double that \<^verbatim>\<open>Rcpp::as<double>\<close> reads from the argument
  \<open>l\<close>. The result is the pair of the matrices named \<open>A\<close> and \<open>Loss\<close> in the returned list.
\<close>

record NumericMatrix =
  nrow :: nat
  ncol :: nat
  vals :: vec

definition RHLasso ::
  "scratch \<Rightarrow> NumericMatrix \<Rightarrow> NumericMatrix \<Rightarrow> NumericMatrix \<Rightarrow> dbl
     \<Rightarrow> (fault + NumericMatrix \<times> NumericMatrix) option" where
  "RHLasso sc Ginp Winp Ainp lambda =
     (let k = nrow Winp;
          d = ncol Winp;
          newA = \<lparr> nrow = k, ncol = d, vals = replicate (k * d) (Fin 0) \<rparr>
      in case spawn_threads sc (vals Ginp) (vals Winp) (vals Ainp) lambda k d (vals newA) of
           None \<Rightarrow> None
         | Some (Inl e) \<Rightarrow> Some (Inl e)
         | Some (Inr (Anew, loss)) \<Rightarrow>
             Some (Inr (newA\<lparr>vals := Anew\<rparr>, \<lparr> nrow = 1, ncol = 1, vals = [loss] \<rparr>)))"

section \<open>Notions and runs for the theorems\<close>

text \<open>Column \<open>j\<close> of a column-major buffer with \<open>k\<close> rows.\<close>

definition column :: "nat \<Rightarrow> nat \<Rightarrow> vec \<Rightarrow> vec" where
  "column k j buf = take k (drop (j * k) buf)"

text \<open>
  The loop of \<^verbatim>\<open>HCLasso\<close> pass by pass: \<open>spg_pass k Hess beta n s\<close> is the state after
  \<open>n\<close> passes from \<open>s\<close> and whether the \<open>n\<close>-th pass left the loop; it is \<open>None\<close> when the
  loop was left before, or when a step size selection on the way never returned.
\<close>

fun spg_pass :: "nat \<Rightarrow> vec \<Rightarrow> vec \<Rightarrow> nat \<Rightarrow> spg_state \<Rightarrow> (spg_state \<times> bool) option" where
  "spg_pass k Hess beta 0 s = Some (s, False)"
| "spg_pass k Hess beta (Suc n) s =
     (case spg_pass k Hess beta n s of
        Some (s', False) \<Rightarrow> spg_iter k Hess beta s'
      | _ \<Rightarrow> None)"

text \<open>A double lies in the unit interval.\<close>

definition in_unit :: "dbl \<Rightarrow> bool" where
  "in_unit v = (dle (Fin 0) v \<and> dle v (Fin 1))"

text \<open>
  A value that binary64 has: a finite value lies in the range. The operations above give
  such values only; the values of the input matrices are assumed to be such values
  where it matters.
\<close>

definition is_double :: "dbl \<Rightarrow> bool" where
  "is_double v = (case v of Fin r \<Rightarrow> \<bar>r\<bar> \<le> DBL_MAX | _ \<Rightarrow> True)"

text \<open>
  The objective values with which the first \<open>n\<close> passes of a solve are entered, in the
  order of the passes, and the memory of old values that holds the last
  \<^verbatim>\<open>MEM_OLD_VALUES\<close> of a list of values.
\<close>

definition fvals :: "nat \<Rightarrow> vec \<Rightarrow> vec \<Rightarrow> spg_state \<Rightarrow> nat \<Rightarrow> vec" where
  "fvals k Hess beta s0 n =
     map (\<lambda>i. case spg_pass k Hess beta i s0 of Some (s, b) \<Rightarrow> s_f s | None \<Rightarrow> NaN) [0..<n]"

definition memory_of :: "vec \<Rightarrow> vec" where
  "memory_of fs =
     drop (length fs - MEM_OLD_VALUES) fs @
     replicate (MEM_OLD_VALUES - length fs) (Fin (- DBL_MAX))"

text \<open>A double that is not negative, NaN aside.\<close>

definition nonneg :: "dbl \<Rightarrow> bool" where
  "nonneg v = (case v of Fin r \<Rightarrow> 0 \<le> r | PInf \<Rightarrow> True | NInf \<Rightarrow> False | NaN \<Rightarrow> True)"

text \<open>
  The state of a solve whose iterate and best iterate lie in the hypercube, with an
  objective value that is not below the best one.
\<close>

definition cube_inv :: "nat \<Rightarrow> spg_state \<Rightarrow> bool" where
  "cube_inv k s =
     (length (s_x s) = k \<and> list_all in_unit (s_x s) \<and>
      length (s_ahat s) = k \<and> list_all in_unit (s_ahat s) \<and>
      is_double (s_f s) \<and> \<not> dlt (s_f s) (s_fmin s))"

text \<open>
  Two states of a run that the theorems below are tried on: the solve of \<open>G = 1\<close>,
  \<open>w = 1/2\<close>, \<open>lambda = 0\<close> from \<open>a0 = 0\<close> enters the loop in \<open>s0_half\<close> and leaves it after
  one pass in \<open>s1_half\<close>.
\<close>

definition s0_half :: spg_state where
  "s0_half =
     \<lparr> s_x = [Fin 0], s_x_old = [], s_g = [Fin (- 1)], s_g_old = [],
       s_old_fvals = replicate MEM_OLD_VALUES (Fin (- DBL_MAX)), s_f = Fin 0, s_fmin = Fin 0,
       s_ahat = [Fin 0], s_fhat = Fin 0, s_iter = 0 \<rparr>"

definition s1_half :: spg_state where
  "s1_half =
     \<lparr> s_x = [Fin (1 / 2)], s_x_old = [Fin 0], s_g = [Fin 0], s_g_old = [Fin (- 1)],
       s_old_fvals = (replicate MEM_OLD_VALUES (Fin (- DBL_MAX)))[0 := Fin 0],
       s_f = Fin (- (1 / 4)), s_fmin = Fin (- (1 / 4)), s_ahat = [Fin (1 / 2)],
       s_fhat = Fin (- (1 / 4)), s_iter = 1 \<rparr>"

text \<open>
  A state in which the second pass is entered with \<open>x = x_old\<close> and \<open>g = g_old\<close>: in
  binary64 the solve of \<open>G = 2\<^sup>-\<^sup>1\<^sup>1\<close>, \<open>w = 2\<^sup>5\<^sup>8\<close>, \<open>lambda = 0\<close> from \<open>a0 = 2\<^sup>7\<^sup>0\<close> takes a
  first step of \<open>-2\<^sup>1\<^sup>1\<close>, which the sum \<open>2\<^sup>7\<^sup>0 - 2\<^sup>1\<^sup>1\<close> rounds away.
\<close>

definition s_absorbed :: spg_state where
  "s_absorbed =
     \<lparr> s_x = [Fin (2 ^ 70)], s_x_old = [Fin (2 ^ 70)], s_g = [Fin (2 ^ 59)],
       s_g_old = [Fin (2 ^ 59)],
       s_old_fvals = (replicate MEM_OLD_VALUES (Fin (- DBL_MAX)))[0 := Fin 0],
       s_f = Fin (- (2 ^ 70)), s_fmin = Fin (- (2 ^ 70)), s_ahat = [Fin (2 ^ 70)],
       s_fhat = Fin (- (2 ^ 70)), s_iter = 1 \<rparr>"

text \<open>
  The line search in the words of the specification, to be compared with what a pass of
  \<^verbatim>\<open>HCLasso\<close> does. For a pass with the objective value \<open>f\<close>, the reference value \<open>f_ref\<close>, the
  initial step length \<open>t\<close> and the numbers \<open>gd = g\<cdot>d\<close> and \<open>dHd = d\<^sup>T H d\<close>, the trial of a factor
  has \<open>linear = factor \<cdot> t \<cdot> (g\<cdot>d)\<close>, \<open>quad = (factor \<cdot> t)\<^sup>2 \<cdot> (d\<^sup>T H d)\<close> and
  \<open>\<Delta>f = 0.5 \<cdot> quad + linear\<close>; it is accepted when \<open>f + \<Delta>f < f_ref + suffDec \<cdot> linear\<close>. The
  search is exhausted when \<open>\<parallel>d\<parallel>\<^sub>1 \<cdot> t \<cdot> factor\<close> is below \<open>optTol\<close>.
\<close>

definition spec_linear :: "real \<Rightarrow> real \<Rightarrow> real \<Rightarrow> dbl" where
  "spec_linear factor t gd = Fin (factor * t * gd)"

definition spec_quad :: "real \<Rightarrow> real \<Rightarrow> real \<Rightarrow> dbl" where
  "spec_quad factor t dHd = Fin ((factor * t)\<^sup>2 * dHd)"

definition spec_delta_f :: "real \<Rightarrow> real \<Rightarrow> real \<Rightarrow> real \<Rightarrow> dbl" where
  "spec_delta_f factor t gd dHd =
     dadd (dmul (Fin (1 / 2)) (spec_quad factor t dHd)) (spec_linear factor t gd)"

definition spec_accept :: "dbl \<Rightarrow> dbl \<Rightarrow> real \<Rightarrow> real \<Rightarrow> real \<Rightarrow> real \<Rightarrow> bool" where
  "spec_accept f f_ref factor t gd dHd =
     dlt (dadd f (spec_delta_f factor t gd dHd))
         (dadd f_ref (dmul SUFF_DESC (spec_linear factor t gd)))"

definition spec_exhausted :: "dbl \<Rightarrow> real \<Rightarrow> real \<Rightarrow> bool" where
  "spec_exhausted norm_d t factor = dlt (dmul (dmul norm_d (Fin t)) (Fin factor)) OPT_TOL"

text \<open>
  The states of a solve with a long run: with \<open>G = 0\<close>, \<open>w = 1/32\<close>, \<open>lambda = 0\<close> and
  \<open>a0 = 0\<close> the gradient is \<open>-1/16\<close> everywhere, and every pass moves the iterate by \<open>1/16\<close>
  and the objective value by \<open>-1/256\<close>, until the iterate comes to the face \<open>x = 1\<close> of the
  hypercube. \<open>slope_state n\<close> is the state after \<open>n\<close> passes.
\<close>

definition slope_state :: "nat \<Rightarrow> spg_state" where
  "slope_state n =
     \<lparr> s_x = [Fin (real n / 16)],
       s_x_old = (if n = 0 then [] else [Fin (real (n - 1) / 16)]),
       s_g = [Fin (- (1 / 16))],
       s_g_old = (if n = 0 then [] else [Fin (- (1 / 16))]),
       s_old_fvals = memory_of (map (\<lambda>i. Fin (- (real i / 256))) [0..<n]),
       s_f = Fin (- (real n / 256)), s_fmin = Fin (- (real n / 256)),
       s_ahat = [Fin (real n / 16)], s_fhat = Fin (- (real n / 256)), s_iter = n \<rparr>"

text \<open>The batch call in which every \<^verbatim>\<open>malloc\<close> gave a buffer.\<close>

definition all_ok :: scratch where
  "all_ok =
     \<lparr> Hess_ok = True, beta_ok = True, x_ok = True, x_old_ok = True, g_ok = True,
       g_old_ok = True, dsct_ok = True, old_fvals_ok = True, tmp_ok = True, tmp1_ok = True,
       fhat_ok = True \<rparr>"

section \<open>Evaluating the model\<close>

declare batch_loop.simps [simp del]

lemmas blas_defs = dcopy_def daxpy_def ddot_def dasum_def dgemv_def fabs_def

lemma replicate_numeral: "replicate (numeral k) x = x # replicate (pred_numeral k) x"
  by (simp add: numeral_eq_Suc)

lemma DBL_MAX_bounds: "0 < DBL_MAX" "DBL_MAX < OVERFLOW"
  by (simp_all add: DBL_MAX_def OVERFLOW_def)

lemma rnd_in_range: "\<bar>r\<bar> \<le> DBL_MAX \<Longrightarrow> rnd r = Fin r"
  using DBL_MAX_bounds by (auto simp: rnd_def)

lemma rnd_small [simp]: "\<bar>r\<bar> \<le> 2 ^ 1023 \<Longrightarrow> rnd r = Fin r"
  by (rule rnd_in_range) (simp add: DBL_MAX_def)

lemma rnd_overflow: "OVERFLOW \<le> r \<Longrightarrow> rnd r = PInf"
  by (simp add: rnd_def)

lemma rnd_pos:
  assumes "0 < r"
  shows "rnd r = PInf \<or> (\<exists>r'. rnd r = Fin r' \<and> 0 < r')"
  using assms DBL_MAX_bounds by (auto simp: rnd_def)

lemma rnd_nonneg:
  assumes "0 \<le> r"
  shows "rnd r = PInf \<or> (\<exists>r'. rnd r = Fin r' \<and> 0 \<le> r')"
  using assms DBL_MAX_bounds by (auto simp: rnd_def)

text \<open>
  A solve that starts outside the hypercube at a point where the gradient vanishes: the
  first pass leaves the loop at the test of the directional derivative.
\<close>

lemma init_flat:
  "spg_init (Fin 0 # G') [Fin 0] [Fin 2] (Fin 0) (Suc 0) =
     ([Fin 0], [Fin 0],
      \<lparr> s_x = [Fin 2], s_x_old = [], s_g = [Fin 0], s_g_old = [],
        s_old_fvals = replicate MEM_OLD_VALUES (Fin (- DBL_MAX)), s_f = Fin 0, s_fmin = Fin 0,
        s_ahat = [Fin 2], s_fhat = Fin 0, s_iter = 0 \<rparr>)"
  by (simp add: spg_init_def SetInput_def GetGrad_def ObjValue_def blas_defs dsub_def Let_def)

lemma iter_flat:
  "spg_iter (Suc 0) [Fin 0] [Fin 0]
     \<lparr> s_x = [Fin 2], s_x_old = [], s_g = [Fin 0], s_g_old = [], s_old_fvals = old,
       s_f = Fin 0, s_fmin = Fin 0, s_ahat = [Fin 2], s_fhat = Fin 0, s_iter = 0 \<rparr> =
   Some (\<lparr> s_x = [Fin 2], s_x_old = [], s_g = [Fin 0], s_g_old = [], s_old_fvals = old,
       s_f = Fin 0, s_fmin = Fin 0, s_ahat = [Fin 2], s_fhat = Fin 0, s_iter = 0 \<rparr>, True)"
  by (simp add: spg_iter_def step_alpha_def GetProjStep_def GetDirectDerivative_def
      ProjHyperCube_def blas_defs dgt_def OPT_TOL_def lit_1e_10_def Let_def)

lemma HCLasso_flat:
  "HCLasso (Fin 0 # G') [Fin 0] [Fin 2] (Fin 0) (Suc 0) = Some ([Fin 2], Fin 0)"
  unfolding HCLasso_def init_flat
  by (subst spg_loop.simps) (simp add: iter_flat)

text \<open>
  When every buffer is there, no solve touches a \<^verbatim>\<open>NULL\<close> buffer, and the loop over the
  columns is the sequence of the solves.
\<close>

lemma null_access_all_ok: "null_access all_ok G w a0 lambda k \<noteq> Some True"
  by (auto simp: null_access_def all_ok_def Let_def split: prod.splits option.splits)

lemma null_access_returns:
  assumes "HCLasso G w a0 lambda k = Some r"
  shows "null_access all_ok G w a0 lambda k = Some False"
proof -
  obtain Hess beta s0 where init: "spg_init G w a0 lambda k = (Hess, beta, s0)"
    by (cases "spg_init G w a0 lambda k") auto
  with assms have "spg_loop k Hess beta s0 \<noteq> None"
    by (auto simp: HCLasso_def split: option.splits)
  then have "spg_iter k Hess beta s0 \<noteq> None"
    by (subst (asm) spg_loop.simps) (auto split: option.splits)
  with init show ?thesis
    by (auto simp: null_access_def all_ok_def Let_def)
qed

lemma null_access_hangs:
  assumes "null_access sc G w a0 lambda k = None"
  shows "HCLasso G w a0 lambda k = None"
proof -
  obtain Hess beta s0 where init: "spg_init G w a0 lambda k = (Hess, beta, s0)"
    by (cases "spg_init G w a0 lambda k") auto
  with assms have "spg_iter k Hess beta s0 = None"
    by (auto simp: null_access_def Let_def split: if_splits option.splits)
  then have "spg_loop k Hess beta s0 = None"
    by (subst spg_loop.simps) simp
  with init show ?thesis
    by (simp add: HCLasso_def)
qed

lemma batch_loop_all_ok:
  "batch_loop all_ok G W A lambda k d j Anew loss =
     (if j < d
      then (case HCLasso G (drop (j * k) W) (drop (j * k) A) lambda k of
              None \<Rightarrow> None
            | Some (ahat, fhat) \<Rightarrow>
                batch_loop all_ok G W A lambda k d (j + 1)
                  (write_at Anew (j * k) ahat) (dadd loss fhat))
      else Some (Inr (Anew, loss)))"
proof (cases "HCLasso G (drop (j * k) W) (drop (j * k) A) lambda k")
  case None
  from None null_access_all_ok [of G "drop (j * k) W" "drop (j * k) A" lambda k]
  show ?thesis
    by (subst batch_loop.simps) (auto split: option.splits bool.splits)
next
  case (Some r)
  from null_access_returns [OF Some] Some show ?thesis
    by (subst batch_loop.simps) simp
qed

lemma RHLasso_flat:
  "RHLasso all_ok \<lparr>nrow = r, ncol = c, vals = Fin 0 # G'\<rparr> \<lparr>nrow = 1, ncol = 1, vals = [Fin 0]\<rparr>
     \<lparr>nrow = 1, ncol = 1, vals = [Fin 2]\<rparr> (Fin 0) =
   Some (Inr (\<lparr>nrow = 1, ncol = 1, vals = [Fin 2]\<rparr>, \<lparr>nrow = 1, ncol = 1, vals = [Fin 0]\<rparr>))"
  by (simp add: RHLasso_def spawn_threads_def batch_loop_all_ok write_at_def HCLasso_flat)

text \<open>The solve of \<open>G = 1\<close>, \<open>w = 1/2\<close>, \<open>lambda = 0\<close> from \<open>a0 = 0\<close>: one pass, one halving.\<close>

lemma init_half:
  "spg_init (Fin 1 # G') (Fin (1 / 2) # w') (Fin 0 # a') (Fin 0) (Suc 0) =
     ([Fin 2], [Fin 1], s0_half)"
  by (simp add: spg_init_def SetInput_def GetGrad_def ObjValue_def blas_defs dsub_def Let_def
      s0_half_def)

lemma f_ref_half: "get_f_ref ((replicate MEM_OLD_VALUES (Fin (- DBL_MAX)))[0 := Fin 0]) = Fin 0"
  by (simp add: get_f_ref_def MEM_OLD_VALUES_def DBL_MAX_def upt_rec)

lemma linesearch_half:
  "linesearch (Fin 0) (Fin 0) (Fin (- 1)) (Fin 2) (Fin 1) (Fin 1) (Fin 1) =
     Some (Fin (1 / 2), Fin (1 / 2), Fin (- (1 / 4)))"
  apply (subst linesearch.simps)
  apply (simp add: Let_def SUFF_DESC_def lit_1e_3_def OPT_TOL_def lit_1e_10_def)
  apply (subst linesearch.simps)
  apply (simp add: Let_def SUFF_DESC_def lit_1e_3_def OPT_TOL_def lit_1e_10_def)
  done

lemma take_step_half:
  "take_step (Suc 0) [Fin 2] [Fin 1] (s0_half\<lparr>s_old_fvals := old\<rparr>) [Fin 1]
     (Fin (1 / 2), Fin (1 / 2), Fin (- (1 / 4))) =
   (s1_half\<lparr>s_old_fvals := old\<rparr>, True)"
  by (simp add: take_step_def s0_half_def s1_half_def GetGrad_def ProjHyperCube_def NormOne_def
      blas_defs Let_def OPT_TOL_def lit_1e_10_def dgt_def)

lemma iter_half: "spg_iter (Suc 0) [Fin 2] [Fin 1] s0_half = Some (s1_half, True)"
proof -
  have a: "step_alpha s0_half (Suc 0) = Fin 1"
    by (simp add: step_alpha_def s0_half_def)
  have d: "GetProjStep (s_x s0_half) (s_g s0_half) (Fin 1) (Suc 0) = [Fin 1]"
    by (simp add: GetProjStep_def ProjHyperCube_def blas_defs s0_half_def Let_def dgt_def)
  have gtd: "GetDirectDerivative (s_g s0_half) [Fin 1] (Suc 0) = Fin (- 1)"
    by (simp add: GetDirectDerivative_def blas_defs s0_half_def)
  have t: "init_t s0_half (Suc 0) = Fin 1"
    by (simp add: init_t_def NormOne_def blas_defs s0_half_def Let_def dgt_def)
  have old: "update_old_fvals (s_iter s0_half) (Fin 0) (s_old_fvals s0_half) =
      (replicate MEM_OLD_VALUES (Fin (- DBL_MAX)))[0 := Fin 0]"
    by (simp add: update_old_fvals_def s0_half_def MEM_OLD_VALUES_def)
  have q: "ddot (Suc 0) [Fin 1] (dgemv (Suc 0) [Fin 2] [Fin 1]) = Fin 2"
    by (simp add: blas_defs)
  have n: "NormOne [Fin 1] (Suc 0) = Fin 1"
    by (simp add: NormOne_def blas_defs)
  have f: "s_f s0_half = Fin 0"
    by (simp add: s0_half_def)
  have u: "s1_half\<lparr>s_old_fvals := (replicate MEM_OLD_VALUES (Fin (- DBL_MAX)))[0 := Fin 0]\<rparr>
      = s1_half"
    by (simp add: s1_half_def)
  show ?thesis
    unfolding spg_iter_def a d gtd t old q n f f_ref_half Let_def
    by (simp add: dgt_def OPT_TOL_def lit_1e_10_def linesearch_half take_step_half u)
qed

lemma HCLasso_half:
  "HCLasso (Fin 1 # G') (Fin (1 / 2) # w') (Fin 0 # a') (Fin 0) (Suc 0) =
     Some ([Fin (1 / 2)], Fin (- (1 / 4)))"
  unfolding HCLasso_def init_half
  by (subst spg_loop.simps) (simp add: iter_half s1_half_def)

text \<open>
  The solve of \<open>G = 1\<close>, \<open>w = 0\<close>, \<open>lambda = 0\<close> from \<open>a0 = 0\<close>: the gradient vanishes and the
  first pass leaves the loop.
\<close>

lemma HCLasso_zero:
  "HCLasso (Fin 1 # G') (Fin 0 # w') (Fin 0 # a') (Fin 0) (Suc 0) = Some ([Fin 0], Fin 0)"
proof -
  have init: "spg_init (Fin 1 # G') (Fin 0 # w') (Fin 0 # a') (Fin 0) (Suc 0) =
     ([Fin 2], [Fin 0],
      \<lparr> s_x = [Fin 0], s_x_old = [], s_g = [Fin 0], s_g_old = [],
        s_old_fvals = replicate MEM_OLD_VALUES (Fin (- DBL_MAX)), s_f = Fin 0, s_fmin = Fin 0,
        s_ahat = [Fin 0], s_fhat = Fin 0, s_iter = 0 \<rparr>)"
    by (simp add: spg_init_def SetInput_def GetGrad_def ObjValue_def blas_defs dsub_def Let_def)
  have iter: "spg_iter (Suc 0) [Fin 2] [Fin 0]
     \<lparr> s_x = [Fin 0], s_x_old = [], s_g = [Fin 0], s_g_old = [], s_old_fvals = old,
       s_f = Fin 0, s_fmin = Fin 0, s_ahat = [Fin 0], s_fhat = Fin 0, s_iter = 0 \<rparr> =
   Some (\<lparr> s_x = [Fin 0], s_x_old = [], s_g = [Fin 0], s_g_old = [], s_old_fvals = old,
       s_f = Fin 0, s_fmin = Fin 0, s_ahat = [Fin 0], s_fhat = Fin 0, s_iter = 0 \<rparr>, True)" for old
    by (simp add: spg_iter_def step_alpha_def GetProjStep_def GetDirectDerivative_def
        ProjHyperCube_def blas_defs dgt_def OPT_TOL_def lit_1e_10_def Let_def)
  show ?thesis
    unfolding HCLasso_def init
    by (subst spg_loop.simps) (simp add: iter)
qed

section \<open>Order of the doubles\<close>

lemma dlt_irrefl [simp]: "\<not> dlt a a"
  by (cases a) simp_all

lemma dlt_trans: "dlt a b \<Longrightarrow> dlt b c \<Longrightarrow> dlt a c"
  by (cases a; cases b; cases c) simp_all

lemma dmul_commute: "dmul a b = dmul b a"
  by (cases a; cases b) (simp_all add: mult.commute)

lemma dadd_NaN_right [simp]: "dadd a NaN = NaN"
  by (cases a) simp_all

lemma dmul_NaN_right [simp]: "dmul a NaN = NaN"
  by (cases a) simp_all

lemma ddiv_NaN_right [simp]: "ddiv a NaN = NaN"
  by (cases a) simp_all

lemma dlt_NaN_right [simp]: "\<not> dlt a NaN"
  by (cases a) simp_all

lemma deq_NaN_right [simp]: "\<not> deq a NaN"
  by (cases a) simp_all

section \<open>The empty batch\<close>

text \<open>
  C10. When \<open>W\<close> has no column (\<open>d = 0\<close>), \<^verbatim>\<open>RHLasso\<close> returns the \<open>k \<times> 0\<close> matrix and the
  loss 0, whatever \<open>G\<close>, \<open>A0\<close> and \<open>lambda\<close> are: the loop over the columns is not
  entered, so no solve runs, and the call is not an error.
\<close>

theorem RHLasso_empty_batch:
  "ncol Winp = 0 \<Longrightarrow>
   RHLasso sc Ginp Winp Ainp lambda =
     Some (Inr (\<lparr>nrow = nrow Winp, ncol = 0, vals = []\<rparr>, \<lparr>nrow = 1, ncol = 1, vals = [Fin 0]\<rparr>))"
  by (simp add: RHLasso_def spawn_threads_def batch_loop.simps)

theorem RHLasso_empty_batch_witness:
  "ncol \<lparr>nrow = 2, ncol = 0, vals = []\<rparr> = 0 \<and>
   RHLasso all_ok \<lparr>nrow = 2, ncol = 2, vals = [Fin 1, Fin 0, Fin 0, Fin 1]\<rparr>
     \<lparr>nrow = 2, ncol = 0, vals = []\<rparr> \<lparr>nrow = 2, ncol = 0, vals = []\<rparr> (Fin 1) =
   Some (Inr (\<lparr>nrow = 2, ncol = 0, vals = []\<rparr>, \<lparr>nrow = 1, ncol = 1, vals = [Fin 0]\<rparr>))"
  using RHLasso_empty_batch [of "\<lparr>nrow = 2, ncol = 0, vals = []\<rparr>" all_ok
      "\<lparr>nrow = 2, ncol = 2, vals = [Fin 1, Fin 0, Fin 0, Fin 1]\<rparr>"
      "\<lparr>nrow = 2, ncol = 0, vals = []\<rparr>" "Fin 1"]
  by simp

section \<open>Failed allocations\<close>

text \<open>
  C8. The claim is that a failed allocation of a scratch buffer makes the whole call fail
  with an explicit error. In the code the test for a \<^verbatim>\<open>NULL\<close> buffer does nothing, and no
  outcome of \<^verbatim>\<open>spawn_threads\<close> is a reported error. Whatever allocations failed, with an empty
  batch the call returns a loss of 0 as if nothing had happened. When a buffer is \<^verbatim>\<open>NULL\<close> that
  every solve writes before the test of its first pass (\<open>old_fvals\<close>, \<open>fhat\<close>, and for
  \<open>k \<ge> 1\<close> also \<open>beta\<close>, \<open>Hess\<close>, \<open>x\<close>, \<open>g\<close>, \<open>tmp\<close> and \<open>dsct\<close>) and there is a column to solve, the
  solver writes through the \<^verbatim>\<open>NULL\<close> buffer. When \<open>tmp1\<close> alone is \<^verbatim>\<open>NULL\<close> and the solve leaves its loop in the first pass, the buffer is
  never used and the call returns the solution: for \<open>G = 1\<close>, \<open>W = 1/2\<close>, \<open>A0 = 0\<close> and
  \<open>lambda = 0\<close> it returns \<open>1/2\<close> and the loss \<open>-1/4\<close>.
\<close>

theorem spawn_threads_ignores_failed_malloc:
  "spawn_threads sc G W A lambda k 0 Anew = Some (Inr (Anew, Fin 0)) \<and>
   (\<not> (old_fvals_ok sc \<and> fhat_ok sc \<and>
        (k = 0 \<or> (beta_ok sc \<and> Hess_ok sc \<and> x_ok sc \<and> g_ok sc \<and> tmp_ok sc \<and> dsct_ok sc))) \<longrightarrow>
      spawn_threads sc G W A lambda k d Anew =
        (if d = 0 then Some (Inr (Anew, Fin 0)) else Some (Inl NullPointerAccess))) \<and>
   spawn_threads (all_ok\<lparr>tmp1_ok := False\<rparr>) [Fin 1] [Fin (1 / 2)] [Fin 0] (Fin 0) 1 1 [Fin 0] =
     Some (Inr ([Fin (1 / 2)], Fin (- (1 / 4))))"
proof (intro conjI impI)
  show "spawn_threads sc G W A lambda k 0 Anew = Some (Inr (Anew, Fin 0))"
    by (simp add: spawn_threads_def batch_loop.simps)
next
  assume "\<not> (old_fvals_ok sc \<and> fhat_ok sc \<and>
        (k = 0 \<or> (beta_ok sc \<and> Hess_ok sc \<and> x_ok sc \<and> g_ok sc \<and> tmp_ok sc \<and> dsct_ok sc)))"
  then have "null_access sc G w a0 lambda k = Some True" for w a0
    unfolding null_access_def by (simp only: if_True simp_thms)
  then show "spawn_threads sc G W A lambda k d Anew =
        (if d = 0 then Some (Inr (Anew, Fin 0)) else Some (Inl NullPointerAccess))"
    by (simp add: spawn_threads_def batch_loop.simps)
next
  have d: "GetProjStep (s_x s0_half) (s_g s0_half) (step_alpha s0_half (Suc 0)) (Suc 0) = [Fin 1]"
    by (simp add: GetProjStep_def ProjHyperCube_def step_alpha_def blas_defs s0_half_def Let_def
        dgt_def)
  have gtd: "GetDirectDerivative (s_g s0_half) [Fin 1] (Suc 0) = Fin (- 1)"
    by (simp add: GetDirectDerivative_def blas_defs s0_half_def)
  have n: "null_access (all_ok\<lparr>tmp1_ok := False\<rparr>) [Fin 1] [Fin (1 / 2)] [Fin 0] (Fin 0) (Suc 0)
      = Some False"
    unfolding null_access_def init_half Let_def
    by (simp add: all_ok_def d gtd iter_half dgt_def OPT_TOL_def lit_1e_10_def)
  show "spawn_threads (all_ok\<lparr>tmp1_ok := False\<rparr>) [Fin 1] [Fin (1 / 2)] [Fin 0] (Fin 0) 1 1 [Fin 0] =
     Some (Inr ([Fin (1 / 2)], Fin (- (1 / 4))))"
    unfolding spawn_threads_def
    apply simp
    apply (subst batch_loop.simps, simp add: n HCLasso_half write_at_def)
    apply (subst batch_loop.simps, simp)
    done
qed

theorem spawn_threads_ignores_failed_malloc_witness:
  "\<not> Hess_ok (all_ok\<lparr>Hess_ok := False\<rparr>) \<and> (1::nat) \<noteq> 0 \<and>
   spawn_threads (all_ok\<lparr>Hess_ok := False\<rparr>) [Fin 1] [Fin (1 / 2)] [Fin 0] (Fin 0) 1 1
     [Fin 0] = Some (Inl NullPointerAccess)"
  using spawn_threads_ignores_failed_malloc [of "all_ok\<lparr>Hess_ok := False\<rparr>" "[Fin 1]"
      "[Fin (1 / 2)]" "[Fin 0]" "Fin 0" 1 "[Fin 0]" 1]
  by simp

section \<open>Starting points outside the hypercube\<close>

text \<open>
  C1. The claim is that every value of the returned matrix lies in \<open>[0, 1]\<close>, also when the
  starting point does not; the comment at the head of the source states the constraint
  \<open>1 \<ge> a\<^sub>i \<ge> 0\<close> of the problem that is solved. \<^verbatim>\<open>HCLasso\<close> projects every step, but it copies
  the starting point to \<open>x\<close> and to \<open>ahat\<close> as it is (lines 290 and 296), and \<open>ahat\<close> stays
  there when no pass finds a smaller objective value. With \<open>G = 0\<close>, \<open>W = 0\<close>, \<open>lambda = 0\<close>
  and \<open>A0 = 2\<close> the returned value is \<open>2\<close>.
\<close>

theorem RHLasso_returns_start_outside_cube:
  "RHLasso all_ok \<lparr>nrow = 1, ncol = 1, vals = [Fin 0]\<rparr> \<lparr>nrow = 1, ncol = 1, vals = [Fin 0]\<rparr>
     \<lparr>nrow = 1, ncol = 1, vals = [Fin 2]\<rparr> (Fin 0) =
   Some (Inr (\<lparr>nrow = 1, ncol = 1, vals = [Fin 2]\<rparr>, \<lparr>nrow = 1, ncol = 1, vals = [Fin 0]\<rparr>))
   \<and> \<not> in_unit (Fin 2)"
  using RHLasso_flat [of 1 1 "[]"] by (simp add: in_unit_def dle_def)

section \<open>Dimensions of the input matrices\<close>

text \<open>
  C9, as stated, fails: \<^verbatim>\<open>RHLasso\<close> never compares the dimensions of \<open>G\<close> and \<open>A0\<close> with
  those of \<open>W\<close>. A \<open>2 \<times> 2\<close> matrix \<open>G\<close> given with a \<open>1 \<times> 1\<close> matrix \<open>W\<close> is not rejected:
  the solve runs on the first value of \<open>G\<close> and a result is returned.
\<close>

theorem RHLasso_accepts_mismatched_G:
  "RHLasso all_ok \<lparr>nrow = 2, ncol = 2, vals = [Fin 0, Fin 5, Fin 6, Fin 7]\<rparr>
     \<lparr>nrow = 1, ncol = 1, vals = [Fin 0]\<rparr> \<lparr>nrow = 1, ncol = 1, vals = [Fin 2]\<rparr> (Fin 0) =
   Some (Inr (\<lparr>nrow = 1, ncol = 1, vals = [Fin 2]\<rparr>, \<lparr>nrow = 1, ncol = 1, vals = [Fin 0]\<rparr>))"
  by (rule RHLasso_flat)

section \<open>The best value\<close>

lemma spg_init_best:
  "spg_init G w a0 lambda k = (Hess, beta, s0) \<Longrightarrow>
   s_fmin s0 = s_fhat s0 \<and> \<not> dlt (s_f s0) (s_fmin s0)"
  by (auto simp: spg_init_def Let_def split: prod.splits)

lemma take_step_best:
  assumes "take_step k Hess beta s d r = (s', stop)"
  shows "s_fmin s' = (if dlt (s_f s') (s_fmin s) then s_f s' else s_fmin s)"
    and "s_fhat s' = (if dlt (s_f s') (s_fmin s) then s_f s' else s_fhat s)"
    and "s_ahat s' = (if dlt (s_f s') (s_fmin s) then dcopy k (s_x s') else s_ahat s)"
  using assms
  by (auto simp: take_step_def Let_def split: prod.splits if_splits)

lemma spg_iter_cases:
  assumes "spg_iter k Hess beta s = Some (s', stop)"
  shows "(s' = s \<and> stop) \<or>
         (\<exists>d r old. take_step k Hess beta (s\<lparr>s_old_fvals := old\<rparr>) d r = (s', stop))"
  using assms
  by (auto simp: spg_iter_def Let_def split: if_splits option.splits)

lemma spg_iter_best:
  assumes "spg_iter k Hess beta s = Some (s', stop)"
      and "s_fmin s = s_fhat s" and "\<not> dlt (s_f s) (s_fmin s)"
  shows "s_fmin s' = s_fhat s' \<and> \<not> dlt (s_f s') (s_fmin s') \<and>
         (if dlt (s_f s') (s_fhat s) then s_fhat s' = s_f s' \<and> s_ahat s' = dcopy k (s_x s')
          else s_fhat s' = s_fhat s \<and> s_ahat s' = s_ahat s)"
proof -
  from spg_iter_cases [OF assms(1)] show ?thesis
  proof
    assume "s' = s \<and> stop"
    with assms(2,3) show ?thesis by simp
  next
    assume "\<exists>d r old. take_step k Hess beta (s\<lparr>s_old_fvals := old\<rparr>) d r = (s', stop)"
    then obtain d r old where ts: "take_step k Hess beta (s\<lparr>s_old_fvals := old\<rparr>) d r = (s', stop)"
      by blast
    from take_step_best [OF ts] assms(2) show ?thesis by auto
  qed
qed

lemma spg_pass_Suc:
  assumes "spg_pass k Hess beta (Suc n) s0 = Some (s, b)"
  obtains s1 where "spg_pass k Hess beta n s0 = Some (s1, False)"
    and "spg_iter k Hess beta s1 = Some (s, b)"
  using assms by (auto split: option.splits prod.splits bool.splits)

lemma spg_pass_best:
  assumes "spg_init G w a0 lambda k = (Hess, beta, s0)"
  shows "spg_pass k Hess beta n s0 = Some (s, b) \<Longrightarrow>
         s_fmin s = s_fhat s \<and> \<not> dlt (s_f s) (s_fmin s)"
proof (induction n arbitrary: s b)
  case 0
  with spg_init_best [OF assms] show ?case by auto
next
  case (Suc n)
  from Suc.prems obtain s1 where p: "spg_pass k Hess beta n s0 = Some (s1, False)"
    and it: "spg_iter k Hess beta s1 = Some (s, b)"
    by (rule spg_pass_Suc)
  from Suc.IH [OF p] spg_iter_best [OF it] show ?case by auto
qed

lemma spg_pass_fhat_mono:
  assumes init: "spg_init G w a0 lambda k = (Hess, beta, s0)"
  shows "spg_pass k Hess beta m s0 = Some (sm, bm) \<Longrightarrow>
         spg_pass k Hess beta (m + i) s0 = Some (sn, bn) \<Longrightarrow>
         s_fhat sn = s_fhat sm \<or> dlt (s_fhat sn) (s_fhat sm)"
proof (induction i arbitrary: sn bn)
  case 0
  then show ?case by simp
next
  case (Suc i)
  from Suc.prems(2) have "spg_pass k Hess beta (Suc (m + i)) s0 = Some (sn, bn)"
    unfolding add_Suc_right .
  then obtain s1 where p: "spg_pass k Hess beta (m + i) s0 = Some (s1, False)"
    and it: "spg_iter k Hess beta s1 = Some (sn, bn)"
    by (rule spg_pass_Suc)
  from Suc.IH [OF Suc.prems(1) p] have ih: "s_fhat s1 = s_fhat sm \<or> dlt (s_fhat s1) (s_fhat sm)" .
  from spg_pass_best [OF init p] spg_iter_best [OF it]
  have "s_fhat sn = s_fhat s1 \<or> dlt (s_fhat sn) (s_fhat s1)"
    by (auto split: if_splits)
  with ih show ?case by (auto dest: dlt_trans)
qed

text \<open>The result of the loop is the state after some pass, the one that left the loop.\<close>

lemma spg_loop_pass:
  assumes "spg_loop k Hess beta s = Some r"
  shows "\<exists>n. spg_pass k Hess beta (Suc n) s = Some (r, True)"
proof (rule spg_loop.raw_induct
    [where P = "\<lambda>k Hess beta s r. \<exists>n. spg_pass k Hess beta (Suc n) s = Some (r, True)"])
  fix loop k Hess beta s r
  assume IH: "\<And>k Hess beta s r. loop k Hess beta s = Some r \<Longrightarrow>
      \<exists>n. spg_pass k Hess beta (Suc n) s = Some (r, True)"
  assume body: "(case spg_iter k Hess beta s of None \<Rightarrow> None
      | Some (s', stop) \<Rightarrow> if stop then Some s' else loop k Hess beta s') = Some r"
  then obtain s' stop where it: "spg_iter k Hess beta s = Some (s', stop)"
    and rest: "(if stop then Some s' else loop k Hess beta s') = Some r"
    by (auto split: option.splits)
  show "\<exists>n. spg_pass k Hess beta (Suc n) s = Some (r, True)"
  proof (cases stop)
    case True
    with it rest have "spg_pass k Hess beta (Suc 0) s = Some (r, True)" by simp
    then show ?thesis by blast
  next
    case False
    with rest have "loop k Hess beta s' = Some r" by simp
    from IH [OF this] obtain n where n: "spg_pass k Hess beta (Suc n) s' = Some (r, True)"
      by blast
    have shift: "spg_pass k Hess beta (Suc m) s = spg_pass k Hess beta m s'" for m
      by (induction m) (use it False in \<open>auto\<close>)
    from n shift [of "Suc n"] show ?thesis by metis
  qed
qed (fact assms)

text \<open>
  C4. Within one solve the stored best value \<open>fhat\<close> never increases from one pass of the
  loop to a later one: it stays the same or becomes strictly smaller. A pass replaces
  \<open>fhat\<close> (and \<open>ahat\<close>, by the current iterate) exactly when the objective value \<open>f\<close> after
  the pass is strictly smaller than the stored \<open>fhat\<close>, and leaves both unchanged otherwise.
\<close>

theorem fhat_nonincreasing:
  assumes "spg_init G w a0 lambda k = (Hess, beta, s0)"
      and "spg_pass k Hess beta m s0 = Some (sm, bm)"
      and "spg_pass k Hess beta n s0 = Some (sn, bn)"
      and "m \<le> n"
  shows "(s_fhat sn = s_fhat sm \<or> dlt (s_fhat sn) (s_fhat sm)) \<and>
         (n = Suc m \<longrightarrow>
            (if dlt (s_f sn) (s_fhat sm)
             then s_fhat sn = s_f sn \<and> s_ahat sn = dcopy k (s_x sn)
             else s_fhat sn = s_fhat sm \<and> s_ahat sn = s_ahat sm))"
proof
  from assms(4) obtain i where n: "n = m + i"
    by (auto simp: le_iff_add)
  from spg_pass_fhat_mono [OF assms(1,2)] assms(3) n
  show "s_fhat sn = s_fhat sm \<or> dlt (s_fhat sn) (s_fhat sm)" by blast
next
  show "n = Suc m \<longrightarrow>
            (if dlt (s_f sn) (s_fhat sm)
             then s_fhat sn = s_f sn \<and> s_ahat sn = dcopy k (s_x sn)
             else s_fhat sn = s_fhat sm \<and> s_ahat sn = s_ahat sm)"
  proof
    assume n: "n = Suc m"
    with assms(3) have "spg_pass k Hess beta (Suc m) s0 = Some (sn, bn)"
      by blast
    then obtain s1 where p: "spg_pass k Hess beta m s0 = Some (s1, False)"
      and it: "spg_iter k Hess beta s1 = Some (sn, bn)"
      by (rule spg_pass_Suc)
    from p assms(2) have eq: "s1 = sm" by simp
    from spg_pass_best [OF assms(1) p] spg_iter_best [OF it] eq
    show "if dlt (s_f sn) (s_fhat sm)
             then s_fhat sn = s_f sn \<and> s_ahat sn = dcopy k (s_x sn)
             else s_fhat sn = s_fhat sm \<and> s_ahat sn = s_ahat sm"
      by auto
  qed
qed

theorem fhat_nonincreasing_witness:
  "spg_init [Fin 1] [Fin (1 / 2)] [Fin 0] (Fin 0) (Suc 0) = ([Fin 2], [Fin 1], s0_half) \<and>
   spg_pass (Suc 0) [Fin 2] [Fin 1] 0 s0_half = Some (s0_half, False) \<and>
   spg_pass (Suc 0) [Fin 2] [Fin 1] (Suc 0) s0_half = Some (s1_half, True) \<and>
   (0::nat) \<le> Suc 0 \<and>
   dlt (s_fhat s1_half) (s_fhat s0_half) \<and> s_fhat s1_half = s_f s1_half \<and>
   s_ahat s1_half = dcopy (Suc 0) (s_x s1_half)"
proof -
  have p: "spg_pass (Suc 0) [Fin 2] [Fin 1] (Suc 0) s0_half = Some (s1_half, True)"
    by (simp add: iter_half)
  have lt: "dlt (s_f s1_half) (s_fhat s0_half)"
    by (simp add: s0_half_def s1_half_def)
  from fhat_nonincreasing [OF init_half [of "[]" "[]" "[]"] _ p, of 0 s0_half False] lt
  show ?thesis
    by (simp add: init_half iter_half)
qed

section \<open>The step length \<open>alpha\<close>\<close>

text \<open>
  C3. The claim is that a computed \<open>alpha\<close> that is not finite, a NaN from \<open>0 / 0\<close> included,
  is reset to 1. The test \<^verbatim>\<open>alpha <= 1e-10 || alpha > 1e10\<close> is false for a NaN, so the
  code keeps it: in a pass entered with \<open>x = x_old\<close> and \<open>g = g_old\<close> the step length is NaN.
\<close>

theorem step_alpha_keeps_NaN: "step_alpha s_absorbed (Suc 0) = NaN"
  by (simp add: step_alpha_def s_absorbed_def GetAlpha_def blas_defs Let_def dle_def dgt_def)

section \<open>Termination\<close>

text \<open>
  A step size selection whose \<open>Linear\<close>, \<open>Norm1_dx\<close> and \<open>t\<close> are NaN accepts no trial, and
  neither of its two tests for a step that is too small can hold: it never returns.
\<close>

lemma linesearch_NaN_no_result:
  assumes "linesearch f f_ref Linear Quad Norm1_dx t factor = Some r"
  shows "\<not> (Linear = NaN \<and> Norm1_dx = NaN \<and> t = NaN)"
  by (rule linesearch.raw_induct
      [where P = "\<lambda>f f_ref Linear Quad Norm1_dx t factor r.
                    \<not> (Linear = NaN \<and> Norm1_dx = NaN \<and> t = NaN)", OF _ assms])
    (auto simp: Let_def split: if_splits)

lemma linesearch_NaN_never_returns:
  "linesearch f f_ref NaN Quad NaN NaN factor = None"
  using linesearch_NaN_no_result [of f f_ref NaN Quad NaN NaN factor]
  by (cases "linesearch f f_ref NaN Quad NaN NaN factor") auto

text \<open>
  C5. The claim is that every solve on finite inputs terminates. With \<open>G = 2\<^sup>1\<^sup>0\<^sup>2\<^sup>3\<close>,
  \<open>w = 2\<^sup>1\<^sup>0\<^sup>2\<^sup>3\<close>, \<open>lambda = 0\<close> and \<open>a0 = 1\<close>, all finite, \<open>2 G\<close> and \<open>2 w\<close> overflow to
  infinity, the gradient \<open>\<infinity> - \<infinity>\<close> is NaN, and the step size selection of the first pass
  never returns.
\<close>

theorem HCLasso_never_returns:
  "HCLasso [Fin (2 ^ 1023)] [Fin (2 ^ 1023)] [Fin 1] (Fin 0) (Suc 0) = None"
proof -
  obtain s0 where s0: "s0 = \<lparr> s_x = [Fin 1], s_x_old = [], s_g = [NaN], s_g_old = [],
        s_old_fvals = replicate MEM_OLD_VALUES (Fin (- DBL_MAX)), s_f = NInf, s_fmin = NInf,
        s_ahat = [Fin 1], s_fhat = NInf, s_iter = 0 \<rparr>" by simp
  have init: "spg_init [Fin (2 ^ 1023)] [Fin (2 ^ 1023)] [Fin 1] (Fin 0) (Suc 0) = ([PInf], [PInf], s0)"
    by (simp add: spg_init_def SetInput_def GetGrad_def ObjValue_def blas_defs dsub_def Let_def s0
        rnd_def OVERFLOW_def DBL_MAX_def)
  have a: "step_alpha s0 (Suc 0) = Fin 1"
    by (simp add: step_alpha_def s0)
  have d: "GetProjStep (s_x s0) (s_g s0) (Fin 1) (Suc 0) = [NaN]"
    by (simp add: GetProjStep_def ProjHyperCube_def blas_defs s0 Let_def dgt_def)
  have gtd: "GetDirectDerivative (s_g s0) [NaN] (Suc 0) = NaN"
    by (simp add: GetDirectDerivative_def blas_defs s0)
  have t: "init_t s0 (Suc 0) = NaN"
    by (simp add: init_t_def NormOne_def blas_defs s0 Let_def dgt_def)
  have n: "NormOne [NaN] (Suc 0) = NaN"
    by (simp add: NormOne_def blas_defs)
  have "spg_iter (Suc 0) [PInf] [PInf] s0 = None"
    unfolding spg_iter_def a d gtd t n Let_def
    by (simp add: dgt_def OPT_TOL_def lit_1e_10_def linesearch_NaN_never_returns)
  then have "spg_loop (Suc 0) [PInf] [PInf] s0 = None"
    by (subst spg_loop.simps) simp
  then show ?thesis
    unfolding HCLasso_def init by simp
qed

section \<open>The columns of the result\<close>

lemma length_dcopy [simp]: "length (dcopy n xs) = n"
  by (simp add: dcopy_def)

lemma length_daxpy [simp]: "length (daxpy n a xs ys) = n"
  by (simp add: daxpy_def)

lemma spg_init_ahat_length:
  "spg_init G w a0 lambda k = (Hess, beta, s0) \<Longrightarrow> length (s_ahat s0) = k"
  by (auto simp: spg_init_def Let_def split: prod.splits)

lemma spg_iter_ahat_length:
  assumes "spg_iter k Hess beta s = Some (s', stop)" and "length (s_ahat s) = k"
  shows "length (s_ahat s') = k"
proof -
  from spg_iter_cases [OF assms(1)] show ?thesis
  proof
    assume "s' = s \<and> stop"
    with assms(2) show ?thesis by simp
  next
    assume "\<exists>d r old. take_step k Hess beta (s\<lparr>s_old_fvals := old\<rparr>) d r = (s', stop)"
    then obtain d r old where "take_step k Hess beta (s\<lparr>s_old_fvals := old\<rparr>) d r = (s', stop)"
      by blast
    from take_step_best(3) [OF this] assms(2) show ?thesis by simp
  qed
qed

lemma spg_pass_ahat_length:
  "spg_pass k Hess beta n s0 = Some (s, b) \<Longrightarrow> length (s_ahat s0) = k \<Longrightarrow>
   length (s_ahat s) = k"
proof (induction n arbitrary: s b)
  case 0
  then show ?case by simp
next
  case (Suc n)
  from Suc.prems(1) obtain s1 where p: "spg_pass k Hess beta n s0 = Some (s1, False)"
    and it: "spg_iter k Hess beta s1 = Some (s, b)"
    by (rule spg_pass_Suc)
  from spg_iter_ahat_length [OF it Suc.IH [OF p Suc.prems(2)]] show ?case .
qed

lemma HCLasso_pass:
  assumes "HCLasso G w a0 lambda k = Some (ahat, fhat)"
  obtains Hess beta s0 n s where "spg_init G w a0 lambda k = (Hess, beta, s0)"
    and "spg_pass k Hess beta (Suc n) s0 = Some (s, True)"
    and "ahat = s_ahat s" and "fhat = s_fhat s"
proof -
  obtain Hess beta s0 where init: "spg_init G w a0 lambda k = (Hess, beta, s0)"
    by (cases "spg_init G w a0 lambda k") auto
  with assms obtain s where loop: "spg_loop k Hess beta s0 = Some s"
    and res: "ahat = s_ahat s" "fhat = s_fhat s"
    by (auto simp: HCLasso_def split: option.splits)
  from spg_loop_pass [OF loop] obtain n where "spg_pass k Hess beta (Suc n) s0 = Some (s, True)"
    by blast
  with init res that show thesis by blast
qed

lemma HCLasso_length:
  assumes "HCLasso G w a0 lambda k = Some (ahat, fhat)"
  shows "length ahat = k"
proof -
  from assms obtain Hess beta s0 n s where init: "spg_init G w a0 lambda k = (Hess, beta, s0)"
    and p: "spg_pass k Hess beta (Suc n) s0 = Some (s, True)" and a: "ahat = s_ahat s"
    by (rule HCLasso_pass)
  from spg_pass_ahat_length [OF p spg_init_ahat_length [OF init]] a show ?thesis by simp
qed

lemma write_at_append:
  assumes "length pre = off" and "length vs \<le> length rest"
  shows "write_at (pre @ rest) off vs = (pre @ vs) @ drop (length vs) rest"
  using assms by (simp add: write_at_def)

text \<open>Column \<open>j\<close> of the concatenation of \<open>d\<close> vectors of length \<open>k\<close> is the \<open>j\<close>-th of them.\<close>

lemma length_concat_columns:
  assumes "\<forall>i<d. length (f i) = k"
  shows "length (concat (map f [0..<d])) = d * k"
  using assms by (induction d) simp_all

lemma column_concat:
  assumes "\<forall>i<d. length (f i) = k" and "j < d"
  shows "column k j (concat (map f [0..<d])) = f j"
  using assms
proof (induction d)
  case 0
  then show ?case by simp
next
  case (Suc d)
  from Suc.prems(1) have all: "\<forall>i<d. length (f i) = k" by simp
  from length_concat_columns [OF all] have len: "length (concat (map f [0..<d])) = d * k" .
  show ?case
  proof (cases "j = d")
    case True
    with len Suc.prems(1) show ?thesis
      by (simp add: column_def)
  next
    case False
    with Suc.prems(2) have j: "j < d" by simp
    then have "Suc j \<le> d" by simp
    then have "Suc j * k \<le> d * k" by (rule mult_le_mono1)
    then have "j * k + k \<le> d * k" by simp
    with len have "take k (drop (j * k) (concat (map f [0..<d]) @ f d)) =
        take k (drop (j * k) (concat (map f [0..<d])))"
      by simp
    with Suc.IH [OF all j] show ?thesis
      by (simp add: column_def)
  qed
qed

text \<open>
  The loop over the columns from \<open>j\<close> on, entered with the columns before \<open>j\<close> written: when
  the solves of the columns \<open>j..<d\<close> return, the loop returns, the columns from \<open>j\<close> on hold
  the \<open>ahat\<close>s of the solves, and the loss has grown by their \<open>fhat\<close>s in the order of the
  columns.
\<close>

lemma batch_loop_returns:
  assumes "\<forall>i<d. HCLasso G (drop (i * k) W) (drop (i * k) A) lambda k = Some (ahat i, fhat i)"
      and "j \<le> d" and "length pre = j * k" and "length rest = (d - j) * k"
  shows "batch_loop all_ok G W A lambda k d j (pre @ rest) loss =
           Some (Inr (pre @ concat (map ahat [j..<d]), foldl dadd loss (map fhat [j..<d])))"
  using assms(2-4)
proof (induction "d - j" arbitrary: j pre rest loss)
  case 0
  then show ?case
    by (subst batch_loop_all_ok) simp
next
  case (Suc n)
  then have j: "j < d" and n: "n = d - Suc j" by simp_all
  from assms(1) j have h: "HCLasso G (drop (j * k) W) (drop (j * k) A) lambda k =
      Some (ahat j, fhat j)" by blast
  from HCLasso_length [OF h] have len: "length (ahat j) = k" .
  from j have "d - j = Suc (d - Suc j)" by simp
  with Suc.prems(3) have rest: "length rest = k + (d - Suc j) * k" by simp
  with len have w: "write_at (pre @ rest) (j * k) (ahat j) = (pre @ ahat j) @ drop k rest"
    using write_at_append [OF Suc.prems(2), of "ahat j" rest] by simp
  from j have "Suc j \<le> d" by simp
  moreover from Suc.prems(2) len have "length (pre @ ahat j) = Suc j * k" by simp
  moreover from rest have "length (drop k rest) = (d - Suc j) * k" by simp
  ultimately have ih: "batch_loop all_ok G W A lambda k d (Suc j) ((pre @ ahat j) @ drop k rest)
        (dadd loss (fhat j)) =
      Some (Inr ((pre @ ahat j) @ concat (map ahat [Suc j..<d]),
                 foldl dadd (dadd loss (fhat j)) (map fhat [Suc j..<d])))"
    by (rule Suc.hyps(1) [OF n])
  from j have upt: "[j..<d] = j # [Suc j..<d]" by (rule upt_conv_Cons)
  from ih show ?case
    by (subst batch_loop_all_ok) (simp add: j h w upt)
qed

text \<open>
  C7. In a batch call in which every allocation gave a buffer and the solve of every column
  returns, with \<open>ahat j\<close> and \<open>fhat j\<close> for column \<open>j\<close>, the call returns: the matrix \<open>A\<close> of the
  result is the sequence of the \<open>ahat\<close>s in the order of the columns, so that its column \<open>j\<close>
  is \<open>ahat j\<close>, and \<open>Loss\<close> is the sum of the \<open>fhat\<close>s, added to 0 in the order of the columns.
\<close>

theorem RHLasso_columns_and_loss:
  assumes "\<forall>j < ncol Winp.
             HCLasso (vals Ginp) (drop (j * nrow Winp) (vals Winp))
               (drop (j * nrow Winp) (vals Ainp)) lambda (nrow Winp) = Some (ahat j, fhat j)"
  shows "RHLasso all_ok Ginp Winp Ainp lambda =
           Some (Inr (\<lparr>nrow = nrow Winp, ncol = ncol Winp,
                        vals = concat (map ahat [0..<ncol Winp])\<rparr>,
                      \<lparr>nrow = 1, ncol = 1,
                        vals = [foldl dadd (Fin 0) (map fhat [0..<ncol Winp])]\<rparr>)) \<and>
         (\<forall>j < ncol Winp. column (nrow Winp) j (concat (map ahat [0..<ncol Winp])) = ahat j)"
proof
  let ?k = "nrow Winp" and ?d = "ncol Winp"
  have "batch_loop all_ok (vals Ginp) (vals Winp) (vals Ainp) lambda ?k ?d 0
          ([] @ replicate (?k * ?d) (Fin 0)) (Fin 0) =
        Some (Inr ([] @ concat (map ahat [0..<?d]), foldl dadd (Fin 0) (map fhat [0..<?d])))"
    by (rule batch_loop_returns [OF assms]) (simp_all add: mult.commute)
  then show "RHLasso all_ok Ginp Winp Ainp lambda =
           Some (Inr (\<lparr>nrow = ?k, ncol = ?d, vals = concat (map ahat [0..<?d])\<rparr>,
                      \<lparr>nrow = 1, ncol = 1, vals = [foldl dadd (Fin 0) (map fhat [0..<?d])]\<rparr>))"
    by (simp add: RHLasso_def spawn_threads_def Let_def)
next
  let ?k = "nrow Winp" and ?d = "ncol Winp"
  from assms have "\<forall>j < ?d. length (ahat j) = ?k"
    by (auto dest: HCLasso_length)
  then show "\<forall>j < ?d. column ?k j (concat (map ahat [0..<?d])) = ahat j"
    by (auto intro: column_concat)
qed

theorem RHLasso_columns_and_loss_witness:
  "HCLasso [Fin 1] [Fin (1 / 2), Fin 0] [Fin 0, Fin 0] (Fin 0) 1 =
     Some ([Fin (1 / 2)], Fin (- (1 / 4))) \<and>
   HCLasso [Fin 1] [Fin 0] [Fin 0] (Fin 0) 1 = Some ([Fin 0], Fin 0) \<and>
   RHLasso all_ok \<lparr>nrow = 1, ncol = 1, vals = [Fin 1]\<rparr>
     \<lparr>nrow = 1, ncol = 2, vals = [Fin (1 / 2), Fin 0]\<rparr>
     \<lparr>nrow = 1, ncol = 2, vals = [Fin 0, Fin 0]\<rparr> (Fin 0) =
   Some (Inr (\<lparr>nrow = 1, ncol = 2, vals = [Fin (1 / 2), Fin 0]\<rparr>,
              \<lparr>nrow = 1, ncol = 1, vals = [Fin (- (1 / 4))]\<rparr>)) \<and>
   column 1 0 [Fin (1 / 2), Fin 0] = [Fin (1 / 2)] \<and>
   column 1 1 [Fin (1 / 2), Fin 0] = [Fin 0]"
proof -
  have "\<forall>j < 2. HCLasso [Fin 1] (drop (j * 1) [Fin (1 / 2), Fin 0]) (drop (j * 1) [Fin 0, Fin 0])
           (Fin 0) 1 =
         Some (if j = 0 then [Fin (1 / 2)] else [Fin 0], if j = 0 then Fin (- (1 / 4)) else Fin 0)"
    by (simp add: less_2_cases_iff HCLasso_half HCLasso_zero)
  with RHLasso_columns_and_loss [of "\<lparr>nrow = 1, ncol = 2, vals = [Fin (1 / 2), Fin 0]\<rparr>"
      "\<lparr>nrow = 1, ncol = 1, vals = [Fin 1]\<rparr>" "\<lparr>nrow = 1, ncol = 2, vals = [Fin 0, Fin 0]\<rparr>"
      "Fin 0" "\<lambda>j. if j = 0 then [Fin (1 / 2)] else [Fin 0]"
      "\<lambda>j. if j = 0 then Fin (- (1 / 4)) else Fin 0"]
  show ?thesis
    by (simp add: HCLasso_half HCLasso_zero column_def upt_rec)
qed

section \<open>Iterates in the hypercube\<close>

lemma is_double_rnd [simp]: "is_double (rnd r)"
  using DBL_MAX_bounds by (auto simp: is_double_def rnd_def)

lemma is_double_special [simp]: "is_double PInf" "is_double NInf" "is_double NaN"
  by (simp_all add: is_double_def)

lemma is_double_dadd [simp]: "is_double (dadd a b)"
  by (cases a; cases b) simp_all

lemma dadd_zero_right: "is_double a \<Longrightarrow> dadd a (Fin 0) = a"
  by (cases a) (auto simp: is_double_def rnd_in_range)

lemma dadd_zero_left: "is_double a \<Longrightarrow> dadd (Fin 0) a = a"
  by (cases a) (auto simp: is_double_def rnd_in_range)

lemma in_unit_iff: "in_unit v \<longleftrightarrow> (\<exists>r. v = Fin r \<and> 0 \<le> r \<and> r \<le> 1)"
  by (cases v) (auto simp: in_unit_def dle_def)

lemma dmul_not_NaN: "dmul a b \<noteq> NaN \<Longrightarrow> a \<noteq> NaN \<and> b \<noteq> NaN"
  by (cases a; cases b) simp_all

lemma ddot_Suc: "ddot (Suc n) xs ys = dadd (ddot n xs ys) (dmul (xs ! n) (ys ! n))"
  by (simp add: ddot_def)

lemma ddot_NaN: "i < n \<Longrightarrow> ys ! i = NaN \<Longrightarrow> ddot n xs ys = NaN"
proof (induction n)
  case 0
  then show ?case by simp
next
  case (Suc n)
  show ?case
  proof (cases "i = n")
    case True
    with Suc.prems show ?thesis by (simp add: ddot_Suc)
  next
    case False
    with Suc.prems have "i < n" by simp
    from Suc.IH [OF this Suc.prems(2)] show ?thesis by (simp add: ddot_Suc)
  qed
qed

lemma is_double_ddot [simp]: "is_double (ddot n xs ys)"
  by (cases n) (simp_all add: ddot_Suc, simp add: ddot_def is_double_def DBL_MAX_def)

text \<open>A sum of absolute values is not negative.\<close>

lemma nonneg_rnd: "0 \<le> r \<Longrightarrow> nonneg (rnd r)"
  using rnd_nonneg [of r] by (auto simp: nonneg_def)

lemma nonneg_dadd_fabs: "nonneg a \<Longrightarrow> nonneg (dadd a (fabs v))"
  by (cases a; cases v) (auto simp: nonneg_def fabs_def intro: nonneg_rnd [unfolded nonneg_def])

lemma dasum_Suc: "dasum (Suc n) xs = dadd (dasum n xs) (fabs (xs ! n))"
  by (simp add: dasum_def)

lemma nonneg_dasum: "nonneg (dasum n xs)"
  by (induction n) (simp_all add: dasum_Suc nonneg_dadd_fabs, simp add: dasum_def nonneg_def)

lemma init_t_range:
  assumes "init_t s k \<noteq> NaN"
  shows "\<exists>r. init_t s k = Fin r \<and> 0 \<le> r \<and> r \<le> 1"
proof (cases "s_iter s = 0")
  case False
  then show ?thesis by (simp add: init_t_def)
next
  case True
  have nn: "nonneg (NormOne (s_g s) k)"
    by (simp add: NormOne_def nonneg_dasum)
  show ?thesis
  proof (cases "NormOne (s_g s) k")
    case (Fin b)
    with nn have b: "0 \<le> b" by (simp add: nonneg_def)
    show ?thesis
    proof (cases "b = 0")
      case True
      with Fin \<open>s_iter s = 0\<close> show ?thesis
        by (simp add: init_t_def Let_def dgt_def)
    next
      case False
      with b have pos: "0 < 1 / b" by simp
      from rnd_pos [OF pos] show ?thesis
        using Fin False \<open>s_iter s = 0\<close>
        by (auto simp: init_t_def Let_def dgt_def)
    qed
  next
    case PInf
    with \<open>s_iter s = 0\<close> show ?thesis by (simp add: init_t_def Let_def dgt_def)
  next
    case NInf
    with nn show ?thesis by (simp add: nonneg_def)
  next
    case NaN
    with \<open>s_iter s = 0\<close> assms show ?thesis by (simp add: init_t_def Let_def dgt_def)
  qed
qed


text \<open>
  What a step size selection returns: the zero step, or the step of an accepted trial,
  whose factor lies in \<open>(0, 1]\<close> and whose \<open>Linear\<close> is not NaN.
\<close>

lemma linesearch_result:
  assumes "linesearch f f_ref Linear Quad Norm1_dx t factor = Some r"
  shows "\<forall>a. factor = Fin a \<and> 0 < a \<and> a \<le> 1 \<longrightarrow>
           r = (Fin 0, Fin 0, Fin 0) \<or>
           (\<exists>b. 0 < b \<and> b \<le> 1 \<and> fst r = dmul t (Fin b) \<and> Linear \<noteq> NaN)"
proof (rule linesearch.raw_induct
    [where P = "\<lambda>f f_ref Linear Quad Norm1_dx t factor r.
       \<forall>a. factor = Fin a \<and> 0 < a \<and> a \<le> 1 \<longrightarrow>
           r = (Fin 0, Fin 0, Fin 0) \<or>
           (\<exists>b. 0 < b \<and> b \<le> 1 \<and> fst r = dmul t (Fin b) \<and> Linear \<noteq> NaN)", OF _ assms])
  fix ls :: "dbl \<Rightarrow> dbl \<Rightarrow> dbl \<Rightarrow> dbl \<Rightarrow> dbl \<Rightarrow> dbl \<Rightarrow> dbl \<Rightarrow> (dbl \<times> dbl \<times> dbl) option"
  fix f f_ref Linear Quad Norm1_dx t factor r
  assume IH: "\<And>f f_ref Linear Quad Norm1_dx t factor r.
      ls f f_ref Linear Quad Norm1_dx t factor = Some r \<Longrightarrow>
      \<forall>a. factor = Fin a \<and> 0 < a \<and> a \<le> 1 \<longrightarrow>
           r = (Fin 0, Fin 0, Fin 0) \<or>
           (\<exists>b. 0 < b \<and> b \<le> 1 \<and> fst r = dmul t (Fin b) \<and> Linear \<noteq> NaN)"
  assume body: "(let linear = dmul Linear factor;
          quad = dmul (dmul Quad factor) factor;
          red_f = dadd (dmul (Fin (1 / 2)) quad) linear;
          f_tmp = dadd f red_f
      in if dlt f_tmp (dadd f_ref (dmul SUFF_DESC linear))
         then Some (dmul t factor, dmul Norm1_dx factor, red_f)
         else (let factor = dmul factor (Fin (1 / 2))
               in if dlt (dmul Norm1_dx factor) OPT_TOL \<or> deq t (Fin 0)
                  then Some (Fin 0, Fin 0, Fin 0)
                  else ls f f_ref Linear Quad Norm1_dx t factor)) = Some r"
  show "\<forall>a. factor = Fin a \<and> 0 < a \<and> a \<le> 1 \<longrightarrow>
           r = (Fin 0, Fin 0, Fin 0) \<or>
           (\<exists>b. 0 < b \<and> b \<le> 1 \<and> fst r = dmul t (Fin b) \<and> Linear \<noteq> NaN)"
  proof (intro allI impI)
    fix a assume a: "factor = Fin a \<and> 0 < a \<and> a \<le> 1"
    let ?acc = "dlt (dadd f (dadd (dmul (Fin (1 / 2)) (dmul (dmul Quad factor) factor))
                  (dmul Linear factor))) (dadd f_ref (dmul SUFF_DESC (dmul Linear factor)))"
    show "r = (Fin 0, Fin 0, Fin 0) \<or>
           (\<exists>b. 0 < b \<and> b \<le> 1 \<and> fst r = dmul t (Fin b) \<and> Linear \<noteq> NaN)"
    proof (cases ?acc)
      case True
      then have "Linear \<noteq> NaN" by (auto simp: )
      moreover from True body have "fst r = dmul t factor" by (auto simp: Let_def)
      ultimately show ?thesis using a by blast
    next
      case False
      have half: "dmul factor (Fin (1 / 2)) = Fin (a / 2)"
        using a by simp
      show ?thesis
      proof (cases "dlt (dmul Norm1_dx (Fin (a / 2))) OPT_TOL \<or> deq t (Fin 0)")
        case True
        with False body half show ?thesis by (auto simp: Let_def)
      next
        case stay: False
        with False body half have "ls f f_ref Linear Quad Norm1_dx t (Fin (a / 2)) = Some r"
          by (auto simp: Let_def)
        from IH [OF this] have "Fin (a / 2) = Fin (a / 2) \<and> 0 < a / 2 \<and> a / 2 \<le> 1 \<longrightarrow>
            r = (Fin 0, Fin 0, Fin 0) \<or>
            (\<exists>b. 0 < b \<and> b \<le> 1 \<and> fst r = dmul t (Fin b) \<and> Linear \<noteq> NaN)"
          by (rule spec)
        with a show ?thesis by simp
      qed
    qed
  qed
qed


lemma convex_unit:
  fixes t x p :: real
  assumes "0 \<le> t" "t \<le> 1" "0 \<le> x" "x \<le> 1" "0 \<le> p" "p \<le> 1"
  shows "0 \<le> t * (p - x) + x" and "t * (p - x) + x \<le> 1" and "\<bar>t * (p - x)\<bar> \<le> 1"
proof -
  have eq: "t * (p - x) + x = t * p + (1 - t) * x"
    by (simp add: algebra_simps)
  have a: "0 \<le> t * p" using assms by simp
  have b: "0 \<le> (1 - t) * x" using assms by simp
  have c: "t * p \<le> t * 1" using assms by (intro mult_left_mono) auto
  have d: "(1 - t) * x \<le> (1 - t) * 1" using assms by (intro mult_left_mono) auto
  from a b eq show lo: "0 \<le> t * (p - x) + x" by simp
  from c d eq show hi: "t * (p - x) + x \<le> 1" by simp
  from lo hi assms(3,4) show "\<bar>t * (p - x)\<bar> \<le> 1" by linarith
qed

lemma nth_dcopy [simp]: "i < n \<Longrightarrow> dcopy n xs ! i = xs ! i"
  by (simp add: dcopy_def)

lemma nth_daxpy [simp]: "i < n \<Longrightarrow> daxpy n a xs ys ! i = dadd (dmul a (xs ! i)) (ys ! i)"
  by (simp add: daxpy_def)

lemma length_ProjHyperCube [simp]: "length (ProjHyperCube xs m) = m"
  by (simp add: ProjHyperCube_def)

lemma nth_ProjHyperCube_unit:
  "i < m \<Longrightarrow> ProjHyperCube xs m ! i \<noteq> NaN \<Longrightarrow> in_unit (ProjHyperCube xs m ! i)"
  by (cases "xs ! i") (auto simp: ProjHyperCube_def in_unit_def dle_def dgt_def)

text \<open>An entry of the projected step that is not NaN leads from the iterate into the cube.\<close>

lemma GetProjStep_entry:
  assumes "i < k" and "xs ! i = Fin xr" and "0 \<le> xr" and "xr \<le> 1"
      and "GetProjStep xs gs alpha k ! i \<noteq> NaN"
  shows "\<exists>pr. 0 \<le> pr \<and> pr \<le> 1 \<and> GetProjStep xs gs alpha k ! i = Fin (pr - xr)"
proof -
  let ?p = "ProjHyperCube (daxpy k (dneg alpha) gs (dcopy k xs)) k"
  have d: "GetProjStep xs gs alpha k ! i = dadd (Fin (- xr)) (?p ! i)"
    using assms(1-4) by (simp add: GetProjStep_def Let_def)
  with assms(5) have "?p ! i \<noteq> NaN" by auto
  from nth_ProjHyperCube_unit [OF assms(1) this] obtain pr
    where pr: "?p ! i = Fin pr" "0 \<le> pr" "pr \<le> 1"
    by (auto simp: in_unit_iff)
  with assms(3,4) have "dadd (Fin (- xr)) (?p ! i) = Fin (pr - xr)" by simp
  with d pr show ?thesis by auto
qed

lemma spg_iter_step:
  assumes "spg_iter k Hess beta s = Some (s', stop)"
  shows "(s' = s \<and> stop) \<or>
    (\<exists>r Quad N old.
       linesearch (s_f s) (get_f_ref old)
         (dmul (init_t s k)
            (GetDirectDerivative (s_g s) (GetProjStep (s_x s) (s_g s) (step_alpha s k) k) k))
         Quad N (init_t s k) (Fin 1) = Some r \<and>
       take_step k Hess beta (s\<lparr>s_old_fvals := old\<rparr>)
         (GetProjStep (s_x s) (s_g s) (step_alpha s k) k) r = (s', stop))"
  using assms
  by (auto simp: spg_iter_def Let_def split: if_splits option.splits)

lemma take_step_fields:
  assumes "take_step k Hess beta s d (t, n, r) = (s', stop)"
  shows "s_x s' = daxpy k t d (s_x s)" and "s_f s' = dadd (s_f s) r"
    and "dlt n OPT_TOL \<Longrightarrow> stop"
  using assms
  by (auto simp: take_step_def Let_def split: if_splits)

lemma cube_inv_step:
  assumes inv: "cube_inv k s" and it: "spg_iter k Hess beta s = Some (s', stop)"
  shows "length (s_ahat s') = k \<and> list_all in_unit (s_ahat s') \<and> (\<not> stop \<longrightarrow> cube_inv k s')"
proof -
  from inv have lx: "length (s_x s) = k" and ux: "\<forall>i<k. in_unit (s_x s ! i)"
    and la: "length (s_ahat s) = k" and ua: "list_all in_unit (s_ahat s)"
    and df: "is_double (s_f s)" and nb: "\<not> dlt (s_f s) (s_fmin s)"
    by (auto simp: cube_inv_def list_all_length)
  let ?d = "GetProjStep (s_x s) (s_g s) (step_alpha s k) k"
  let ?gtd = "GetDirectDerivative (s_g s) ?d k"
  let ?t = "init_t s k"
  from spg_iter_step [OF it] show ?thesis
  proof
    assume "s' = s \<and> stop"
    with la ua show ?thesis by simp
  next
    assume "\<exists>r Quad N old. linesearch (s_f s) (get_f_ref old) (dmul ?t ?gtd) Quad N ?t (Fin 1) = Some r \<and>
       take_step k Hess beta (s\<lparr>s_old_fvals := old\<rparr>) ?d r = (s', stop)"
    then obtain r Quad N old where
      ls: "linesearch (s_f s) (get_f_ref old) (dmul ?t ?gtd) Quad N ?t (Fin 1) = Some r" and
      ts: "take_step k Hess beta (s\<lparr>s_old_fvals := old\<rparr>) ?d r = (s', stop)"
      by blast
    obtain t' n' r' where r: "r = (t', n', r')" by (cases r) auto
    note tsb = take_step_best [OF ts] and tsf = take_step_fields [OF ts [unfolded r]]
    from linesearch_result [OF ls] have
      alt: "r = (Fin 0, Fin 0, Fin 0) \<or>
            (\<exists>b. 0 < b \<and> b \<le> 1 \<and> fst r = dmul ?t (Fin b) \<and> dmul ?t ?gtd \<noteq> NaN)"
      by simp
    then show ?thesis
    proof
      assume zero: "r = (Fin 0, Fin 0, Fin 0)"
      with r have z: "r' = Fin 0" "n' = Fin 0" by auto
      from tsf(2) df have f: "s_f s' = s_f s" unfolding z by (simp add: dadd_zero_right)
      from tsf(3) have "stop" unfolding z by (simp add: OPT_TOL_def lit_1e_10_def)
      moreover from tsb(3) f nb have "s_ahat s' = s_ahat s" by simp
      ultimately show ?thesis using la ua by simp
    next
      assume "\<exists>b. 0 < b \<and> b \<le> 1 \<and> fst r = dmul ?t (Fin b) \<and> dmul ?t ?gtd \<noteq> NaN"
      then obtain b where b: "0 < b" "b \<le> 1" and t': "t' = dmul ?t (Fin b)"
        and lin: "dmul ?t ?gtd \<noteq> NaN"
        using r by auto
      from dmul_not_NaN [OF lin] have tn: "?t \<noteq> NaN" and gn: "?gtd \<noteq> NaN" by auto
      from init_t_range [OF tn] obtain tr where tr: "?t = Fin tr" "0 \<le> tr" "tr \<le> 1" by blast
      have tb: "0 \<le> tr * b" "tr * b \<le> 1"
        using tr b by (auto intro: mult_le_one)
      with t' tr have t'': "t' = Fin (tr * b)" by simp
      have x': "\<forall>i<k. in_unit (s_x s' ! i)"
      proof (intro allI impI)
        fix i assume i: "i < k"
        from ux i obtain xr where xr: "s_x s ! i = Fin xr" "0 \<le> xr" "xr \<le> 1"
          by (auto simp: in_unit_iff)
        have "?d ! i \<noteq> NaN"
        proof
          assume "?d ! i = NaN"
          from ddot_NaN [OF i this] gn show False by (simp add: GetDirectDerivative_def)
        qed
        from GetProjStep_entry [OF i xr this] obtain pr
          where pr: "0 \<le> pr" "pr \<le> 1" "?d ! i = Fin (pr - xr)" by blast
        note cv = convex_unit [OF tb xr(2,3) pr(1,2)]
        from tsf(1) i have "s_x s' ! i = dadd (dmul t' (?d ! i)) (s_x s ! i)" by simp
        also have "\<dots> = Fin (tr * b * (pr - xr) + xr)"
          using t'' pr(3) xr(1) cv by simp
        finally show "in_unit (s_x s' ! i)" using cv by (simp add: in_unit_iff)
      qed
      from tsf(1) have lx': "length (s_x s') = k" by simp
      have a': "length (s_ahat s') = k \<and> (\<forall>i<k. in_unit (s_ahat s' ! i))"
        using tsb(3) la ua x' by (auto simp: list_all_length)
      moreover from tsf(2) have "is_double (s_f s')" by simp
      moreover from tsb(1) have "\<not> dlt (s_f s') (s_fmin s')" by (auto split: if_splits)
      ultimately show ?thesis using lx' x'
        by (auto simp: cube_inv_def list_all_length)
    qed
  qed
qed


lemma cube_inv_init:
  assumes "\<forall>i<k. in_unit (a0 ! i)" and "spg_init G w a0 lambda k = (Hess, beta, s0)"
  shows "cube_inv k s0"
  using assms
  by (auto simp: spg_init_def Let_def cube_inv_def list_all_length ObjValue_def
      split: prod.splits)

lemma spg_pass_cube:
  assumes "cube_inv k s0"
  shows "spg_pass k Hess beta n s0 = Some (s, b) \<Longrightarrow>
         length (s_ahat s) = k \<and> list_all in_unit (s_ahat s) \<and> (\<not> b \<longrightarrow> cube_inv k s)"
proof (induction n arbitrary: s b)
  case 0
  with assms show ?case by (auto simp: cube_inv_def)
next
  case (Suc n)
  from Suc.prems obtain s1 where p: "spg_pass k Hess beta n s0 = Some (s1, False)"
    and it: "spg_iter k Hess beta s1 = Some (s, b)"
    by (rule spg_pass_Suc)
  from Suc.IH [OF p] have "cube_inv k s1" by simp
  from cube_inv_step [OF this it] show ?case .
qed

text \<open>
  A solve that starts in the hypercube and returns, returns a point of the hypercube: the
  iterate stays in it as long as the loop goes on, and \<open>ahat\<close> is a copy of the starting
  point or of an iterate.
\<close>

lemma HCLasso_in_cube:
  assumes "\<forall>i<k. in_unit (a0 ! i)" and "HCLasso G w a0 lambda k = Some (ahat, fhat)"
  shows "length ahat = k \<and> list_all in_unit ahat"
proof -
  from assms(2) obtain Hess beta s0 n s where init: "spg_init G w a0 lambda k = (Hess, beta, s0)"
    and p: "spg_pass k Hess beta (Suc n) s0 = Some (s, True)" and a: "ahat = s_ahat s"
    by (rule HCLasso_pass)
  from spg_pass_cube [OF cube_inv_init [OF assms(1) init] p] a show ?thesis by simp
qed

section \<open>What is read of \<open>G\<close> and \<open>A0\<close>\<close>

lemma take_eq_cases:
  assumes "take n xs = take n ys"
  shows "xs = ys \<or> (n \<le> length xs \<and> n \<le> length ys)"
proof (cases "n \<le> length xs")
  case True
  with assms have "length (take n ys) = n" by (metis length_take min.absorb2)
  then have "n \<le> length ys" by simp
  with True show ?thesis by simp
next
  case False
  then have x: "take n xs = xs" by simp
  with assms have "length (take n ys) < n" using False by (metis not_le_imp_less)
  then have "take n ys = ys" by simp
  with x assms show ?thesis by simp
qed

lemma take_eq_nth:
  assumes "take n xs = take n ys" and "i < n"
  shows "xs ! i = ys ! i"
  using take_eq_cases [OF assms(1)] assms
  by (metis nth_take)

lemma spg_init_cong:
  assumes G: "\<forall>i < k * k. G ! i = G' ! i" and a: "\<forall>i < k. a0 ! i = a0' ! i"
  shows "spg_init G w a0 lambda k = spg_init G' w a0' lambda k"
proof -
  have c: "dcopy (k * k) G = dcopy (k * k) G'"
    using G by (simp add: dcopy_def)
  have x: "daxpy (k * k) (Fin 1) G H = daxpy (k * k) (Fin 1) G' H" for H
    using G by (simp add: daxpy_def)
  have idx: "i + j * k < k * k" if "i < k" "j < k" for i j
  proof -
    from that(2) have "Suc j \<le> k" by simp
    then have "Suc j * k \<le> k * k" by (rule mult_le_mono1)
    with that(1) show ?thesis by simp
  qed
  have m: "dgemv k G xs = dgemv k G' xs" for xs
    unfolding dgemv_def
  proof (rule map_cong [OF refl])
    fix i assume "i \<in> set [0..<k]"
    then have i: "i < k" by simp
    have "\<forall>j \<in> set js. j < k \<Longrightarrow>
      foldl (\<lambda>acc j. dadd acc (dmul (xs ! j) (G ! (i + j * k)))) acc js =
      foldl (\<lambda>acc j. dadd acc (dmul (xs ! j) (G' ! (i + j * k)))) acc js" for js acc
      by (induction js arbitrary: acc) (use G idx [OF i] in \<open>auto\<close>)
    then show "foldl (\<lambda>acc j. dadd acc (dmul (xs ! j) (G ! (i + j * k)))) (Fin 0) [0..<k] =
      foldl (\<lambda>acc j. dadd acc (dmul (xs ! j) (G' ! (i + j * k)))) (Fin 0) [0..<k]"
      by simp
  qed
  have d: "dcopy k a0 = dcopy k a0'"
    using a by (simp add: dcopy_def)
  show ?thesis
    by (simp add: spg_init_def SetInput_def ObjValue_def Let_def c x m d)
qed

lemma HCLasso_cong:
  assumes "\<forall>i < k * k. G ! i = G' ! i" and "\<forall>i < k. a0 ! i = a0' ! i"
  shows "HCLasso G w a0 lambda k = HCLasso G' w a0' lambda k"
  by (simp add: HCLasso_def spg_init_cong [OF assms])

lemma null_access_cong:
  assumes "\<forall>i < k * k. G ! i = G' ! i" and "\<forall>i < k. a0 ! i = a0' ! i"
  shows "null_access sc G w a0 lambda k = null_access sc G' w a0' lambda k"
  unfolding null_access_def spg_init_cong [OF assms] ..

lemma batch_loop_cong:
  assumes G: "\<forall>i < k * k. G ! i = G' ! i"
      and A: "\<forall>j < d. \<forall>i < k. drop (j * k) A ! i = drop (j * k) A' ! i"
  shows "batch_loop sc G W A lambda k d j Anew loss = batch_loop sc G' W A' lambda k d j Anew loss"
proof (induction "d - j" arbitrary: j Anew loss)
  case 0
  then show ?case by (simp add: batch_loop.simps)
next
  case (Suc n)
  then have j: "j < d" and n: "n = d - Suc j" by simp_all
  have ih: "batch_loop sc G W A lambda k d (Suc j) An l =
            batch_loop sc G' W A' lambda k d (Suc j) An l" for An l
    by (rule Suc.hyps(1) [OF n])
  from A j have a: "\<forall>i < k. drop (j * k) A ! i = drop (j * k) A' ! i" by blast
  from HCLasso_cong [OF G a]
  have h: "HCLasso G (drop (j * k) W) (drop (j * k) A) lambda k =
           HCLasso G' (drop (j * k) W) (drop (j * k) A') lambda k" .
  from null_access_cong [OF G a]
  have na: "null_access sc G (drop (j * k) W) (drop (j * k) A) lambda k =
           null_access sc G' (drop (j * k) W) (drop (j * k) A') lambda k" .
  show ?case
    by (subst batch_loop.simps, subst (2) batch_loop.simps)
      (simp add: h na ih split: option.splits bool.splits)
qed

text \<open>
  C9, amended. \<^verbatim>\<open>RHLasso\<close> makes no test of dimensions: it takes \<open>k\<close> and \<open>d\<close> from \<open>W\<close> and
  reads \<open>G\<close> and \<open>A0\<close> through their value pointers as column-major buffers. When the buffer
  of \<open>G\<close> holds at least \<open>k \<cdot> k\<close> values and the buffer of \<open>A0\<close> at least \<open>k \<cdot> d\<close> values, the
  result of a call depends on the first \<open>k \<cdot> k\<close> values of \<open>G\<close> and the first \<open>k \<cdot> d\<close> values of
  \<open>A0\<close> only, and not on the dimensions that \<open>G\<close> and \<open>A0\<close> declare; no input is rejected.
  (A shorter buffer is read past its end, which the model does not describe.)
\<close>

theorem RHLasso_reads_prefixes:
  assumes "nrow Winp * nrow Winp \<le> length (vals Ginp)"
      and "nrow Winp * nrow Winp \<le> length (vals Ginp')"
      and "nrow Winp * ncol Winp \<le> length (vals Ainp)"
      and "nrow Winp * ncol Winp \<le> length (vals Ainp')"
      and "length (vals Winp) = nrow Winp * ncol Winp"
      and "take (nrow Winp * nrow Winp) (vals Ginp) = take (nrow Winp * nrow Winp) (vals Ginp')"
      and "take (nrow Winp * ncol Winp) (vals Ainp) = take (nrow Winp * ncol Winp) (vals Ainp')"
  shows "RHLasso sc Ginp Winp Ainp lambda = RHLasso sc Ginp' Winp Ainp' lambda"
proof -
  let ?k = "nrow Winp" and ?d = "ncol Winp"
  from assms(6) have G: "\<forall>i < ?k * ?k. vals Ginp ! i = vals Ginp' ! i"
    by (auto intro: take_eq_nth)
  have A: "\<forall>j < ?d. \<forall>i < ?k. drop (j * ?k) (vals Ainp) ! i = drop (j * ?k) (vals Ainp') ! i"
  proof (intro allI impI)
    fix j i assume j: "j < ?d" and i: "i < ?k"
    from j have "Suc j \<le> ?d" by simp
    then have "Suc j * ?k \<le> ?d * ?k" by (rule mult_le_mono1)
    with i have lt: "j * ?k + i < ?k * ?d" by (simp add: mult.commute)
    with assms(3,4) have "j * ?k \<le> length (vals Ainp)" "j * ?k \<le> length (vals Ainp')"
      by simp_all
    then have "drop (j * ?k) (vals Ainp) ! i = vals Ainp ! (j * ?k + i)"
      and "drop (j * ?k) (vals Ainp') ! i = vals Ainp' ! (j * ?k + i)" by simp_all
    with take_eq_nth [OF assms(7) lt]
    show "drop (j * ?k) (vals Ainp) ! i = drop (j * ?k) (vals Ainp') ! i" by simp
  qed
  show ?thesis
    by (simp add: RHLasso_def spawn_threads_def batch_loop_cong [OF G A])
qed

theorem RHLasso_reads_prefixes_witness:
  "(1::nat) * 1 \<le> length [Fin 0, Fin 5, Fin 6, Fin 7] \<and> (1::nat) * 1 \<le> length [Fin 0] \<and>
   (1::nat) * 1 \<le> length [Fin 2, Fin 9] \<and> (1::nat) * 1 \<le> length [Fin 2] \<and>
   length [Fin 0] = (1::nat) * 1 \<and>
   take (1 * 1) [Fin 0, Fin 5, Fin 6, Fin 7] = take (1 * 1) [Fin 0] \<and>
   take (1 * 1) [Fin 2, Fin 9] = take (1 * 1) [Fin 2] \<and>
   RHLasso all_ok \<lparr>nrow = 2, ncol = 2, vals = [Fin 0, Fin 5, Fin 6, Fin 7]\<rparr>
     \<lparr>nrow = 1, ncol = 1, vals = [Fin 0]\<rparr> \<lparr>nrow = 2, ncol = 1, vals = [Fin 2, Fin 9]\<rparr> (Fin 0) =
   RHLasso all_ok \<lparr>nrow = 1, ncol = 1, vals = [Fin 0]\<rparr>
     \<lparr>nrow = 1, ncol = 1, vals = [Fin 0]\<rparr> \<lparr>nrow = 1, ncol = 1, vals = [Fin 2]\<rparr> (Fin 0)"
  using RHLasso_reads_prefixes [of "\<lparr>nrow = 1, ncol = 1, vals = [Fin 0]\<rparr>"
      "\<lparr>nrow = 2, ncol = 2, vals = [Fin 0, Fin 5, Fin 6, Fin 7]\<rparr>"
      "\<lparr>nrow = 1, ncol = 1, vals = [Fin 0]\<rparr>"
      "\<lparr>nrow = 2, ncol = 1, vals = [Fin 2, Fin 9]\<rparr>"
      "\<lparr>nrow = 1, ncol = 1, vals = [Fin 2]\<rparr>" all_ok "Fin 0"]
  by simp

section \<open>The non-monotone line search\<close>

lemma abs_mult_unit_le:
  fixes q t :: real
  assumes "0 \<le> t" "t \<le> 1"
  shows "\<bar>q * t\<bar> \<le> \<bar>q\<bar>"
proof -
  have "\<bar>q * t\<bar> = \<bar>q\<bar> * t" using assms by (simp add: abs_mult)
  also have "\<dots> \<le> \<bar>q\<bar> * 1" using assms by (intro mult_left_mono) auto
  finally show ?thesis by simp
qed

lemma dmul_unit:
  assumes "\<bar>q\<bar> \<le> DBL_MAX" "0 \<le> t" "t \<le> 1"
  shows "dmul (Fin q) (Fin t) = Fin (q * t)" and "\<bar>q * t\<bar> \<le> DBL_MAX"
proof -
  from abs_mult_unit_le [OF assms(2,3), of q] assms(1) show "\<bar>q * t\<bar> \<le> DBL_MAX" by simp
  then show "dmul (Fin q) (Fin t) = Fin (q * t)" by (simp add: rnd_in_range)
qed

text \<open>The two ingredients of a trial, for finite operands.\<close>

lemma trial_linear:
  assumes "0 \<le> tr" "tr \<le> 1" "0 \<le> a" "a \<le> 1" "\<bar>gr\<bar> \<le> DBL_MAX"
  shows "dmul (dmul (Fin tr) (Fin gr)) (Fin a) = Fin (a * tr * gr)"
proof -
  note s1 = dmul_unit [OF assms(5,1,2)]
  note s2 = dmul_unit [OF s1(2) assms(3,4)]
  have c: "dmul (Fin tr) (Fin gr) = dmul (Fin gr) (Fin tr)"
    by (simp add: mult.commute)
  have eq: "gr * tr * a = a * tr * gr"
    by (simp add: mult_ac)
  show ?thesis
    unfolding c s1(1) s2(1) eq ..
qed

lemma trial_quad:
  assumes "0 \<le> tr" "tr \<le> 1" "0 \<le> a" "a \<le> 1" "\<bar>qr\<bar> \<le> DBL_MAX"
  shows "dmul (dmul (dmul (dmul (Fin qr) (Fin tr)) (Fin tr)) (Fin a)) (Fin a) =
         Fin ((a * tr)\<^sup>2 * qr)"
proof -
  note s1 = dmul_unit [OF assms(5,1,2)]
  note s2 = dmul_unit [OF s1(2) assms(1,2)]
  note s3 = dmul_unit [OF s2(2) assms(3,4)]
  note s4 = dmul_unit [OF s3(2) assms(3,4)]
  have eq: "qr * tr * tr * a * a = (a * tr)\<^sup>2 * qr"
    by (simp add: power2_eq_square mult_ac)
  show ?thesis
    unfolding s1(1) s2(1) s3(1) s4(1) eq ..
qed


text \<open>The memory of old values along a solve.\<close>

lemma spg_iter_continue:
  assumes "spg_iter k Hess beta s = Some (s', False)"
  shows "s_old_fvals s' = update_old_fvals (s_iter s) (s_f s) (s_old_fvals s)"
    and "s_iter s' = Suc (s_iter s)"
  using assms
  by (auto simp: spg_iter_def take_step_def Let_def split: if_splits option.splits prod.splits)

lemma spg_iter_is_double:
  assumes "spg_iter k Hess beta s = Some (s', b)" and "is_double (s_f s)"
  shows "is_double (s_f s')"
  using assms
  by (auto simp: spg_iter_def take_step_def Let_def split: if_splits option.splits prod.splits)

lemma spg_init_fields:
  assumes "spg_init G w a0 lambda k = (Hess, beta, s0)"
  shows "s_iter s0 = 0" and "s_old_fvals s0 = memory_of []" and "is_double (s_f s0)"
  using assms
  by (auto simp: spg_init_def Let_def memory_of_def ObjValue_def split: prod.splits)

lemma fvals_Suc:
  assumes "spg_pass k Hess beta n s0 = Some (s, b)"
  shows "fvals k Hess beta s0 (Suc n) = fvals k Hess beta s0 n @ [s_f s]"
  using assms by (simp add: fvals_def)

lemma length_fvals [simp]: "length (fvals k Hess beta s0 n) = n"
  by (simp add: fvals_def)

lemma update_memory:
  "update_old_fvals (length fs) f (memory_of fs) = memory_of (fs @ [f])"
proof (cases "length fs < MEM_OLD_VALUES")
  case True
  then have "MEM_OLD_VALUES - length fs = Suc (MEM_OLD_VALUES - Suc (length fs))" by simp
  with True show ?thesis
    by (simp add: update_old_fvals_def memory_of_def list_update_append)
next
  case False
  let ?old = "drop (length fs - MEM_OLD_VALUES) fs"
  from False have len: "length ?old = MEM_OLD_VALUES" by simp
  have "map (\<lambda>i. ?old ! (i + 1)) [0..<MEM_OLD_VALUES - 1] = tl ?old"
    by (rule nth_equalityI) (use len in \<open>auto simp: nth_tl\<close>)
  also have "\<dots> = drop (Suc (length fs) - MEM_OLD_VALUES) fs"
    using False by (simp add: drop_Suc [symmetric] tl_drop Suc_diff_le)
  finally have "map (\<lambda>i. ?old ! (i + 1)) [0..<MEM_OLD_VALUES - 1] =
      drop (Suc (length fs) - MEM_OLD_VALUES) fs" .
  moreover have "Suc (length fs) - MEM_OLD_VALUES - length fs = 0"
    by (simp add: MEM_OLD_VALUES_def)
  ultimately show ?thesis
    using False by (simp add: update_old_fvals_def memory_of_def)
qed

lemma spg_pass_memory:
  assumes init: "spg_init G w a0 lambda k = (Hess, beta, s0)"
  shows "spg_pass k Hess beta n s0 = Some (s, False) \<Longrightarrow>
         s_iter s = n \<and> s_old_fvals s = memory_of (fvals k Hess beta s0 n)"
proof (induction n arbitrary: s)
  case 0
  with spg_init_fields [OF init] show ?case by (simp add: fvals_def)
next
  case (Suc n)
  from Suc.prems obtain s1 where p: "spg_pass k Hess beta n s0 = Some (s1, False)"
    and it: "spg_iter k Hess beta s1 = Some (s, False)"
    by (rule spg_pass_Suc)
  from Suc.IH [OF p] have i: "s_iter s1 = n"
    and m: "s_old_fvals s1 = memory_of (fvals k Hess beta s0 n)" by simp_all
  from spg_iter_continue [OF it] i m
  have "s_iter s = Suc n"
    and "s_old_fvals s = update_old_fvals (length (fvals k Hess beta s0 n)) (s_f s1)
           (memory_of (fvals k Hess beta s0 n))"
    by simp_all
  with update_memory [of "fvals k Hess beta s0 n" "s_f s1"] show ?case
    by (simp add: fvals_Suc [OF p])
qed

lemma spg_pass_is_double:
  assumes init: "spg_init G w a0 lambda k = (Hess, beta, s0)"
  shows "spg_pass k Hess beta n s0 = Some (s, b) \<Longrightarrow> is_double (s_f s)"
proof (induction n arbitrary: s b)
  case 0
  with spg_init_fields [OF init] show ?case by simp
next
  case (Suc n)
  from Suc.prems obtain s1 where p: "spg_pass k Hess beta n s0 = Some (s1, False)"
    and it: "spg_iter k Hess beta s1 = Some (s, b)"
    by (rule spg_pass_Suc)
  from spg_iter_is_double [OF it Suc.IH [OF p]] show ?case .
qed

lemma fvals_is_double:
  assumes init: "spg_init G w a0 lambda k = (Hess, beta, s0)"
      and p: "spg_pass k Hess beta n s0 = Some (s, b)"
  shows "\<forall>v \<in> set (fvals k Hess beta s0 (Suc n)). is_double v"
proof
  fix v assume "v \<in> set (fvals k Hess beta s0 (Suc n))"
  then have "v \<in> (\<lambda>i. case spg_pass k Hess beta i s0 of Some (s, b) \<Rightarrow> s_f s | None \<Rightarrow> NaN)
      ` set [0..<Suc n]"
    by (simp only: fvals_def set_map)
  then obtain i
    where v: "v = (case spg_pass k Hess beta i s0 of Some (s, b) \<Rightarrow> s_f s | None \<Rightarrow> NaN)"
    by (rule imageE)
  show "is_double v"
  proof (cases "spg_pass k Hess beta i s0")
    case None
    with v show ?thesis by simp
  next
    case (Some sb)
    obtain si bi where "sb = (si, bi)" by (cases sb)
    with Some spg_pass_is_double [OF init, of i si bi] v show ?thesis by simp
  qed
qed


text \<open>The reference value is the largest value of the memory.\<close>

lemma foldl_dlt_max:
  "\<forall>i \<in> set is. i < length rs \<Longrightarrow>
   foldl (\<lambda>r i. if dlt r (map Fin rs ! i) then map Fin rs ! i else r) (Fin a) is =
   Fin (fold max (map (\<lambda>i. rs ! i) is) a)"
proof (induction "is" arbitrary: a)
  case Nil
  then show ?case by simp
next
  case (Cons i "is")
  have "(if a < rs ! i then rs ! i else a) = max (rs ! i) a"
    by (simp add: max_def)
  with Cons show ?case by simp
qed

lemma get_f_ref_Max:
  assumes "length rs = MEM_OLD_VALUES"
  shows "get_f_ref (map Fin rs) = Fin (Max (set rs))"
proof -
  from assms have len: "length rs = 10" by (simp add: MEM_OLD_VALUES_def)
  have all: "\<forall>i \<in> set [1..<10]. i < length rs" using len by simp
  have "rs = map (\<lambda>i. rs ! i) [0..<10]"
    using len map_nth [of rs] by simp
  also have "[0..<10] = 0 # [1..<10]"
    by (simp add: upt_conv_Cons)
  finally have rs: "rs = rs ! 0 # map (\<lambda>i. rs ! i) [1..<10]" by simp
  have "get_f_ref (map Fin rs) = Fin (fold max (map (\<lambda>i. rs ! i) [1..<10]) (rs ! 0))"
    unfolding get_f_ref_def MEM_OLD_VALUES_def
    using foldl_dlt_max [OF all, of "rs ! 0"] len by simp
  also have "fold max (map (\<lambda>i. rs ! i) [1..<10]) (rs ! 0) =
             Max (set (rs ! 0 # map (\<lambda>i. rs ! i) [1..<10]))"
    by (rule Max.set_eq_fold [symmetric])
  also have "\<dots> = Max (set rs)"
    using rs by simp
  finally show ?thesis .
qed

lemma memory_of_Fin:
  "memory_of (map Fin rs) =
   map Fin (drop (length rs - MEM_OLD_VALUES) rs @
            replicate (MEM_OLD_VALUES - length rs) (- DBL_MAX))"
  by (simp add: memory_of_def drop_map)

lemma Max_with_sentinel:
  fixes rs :: "real list"
  assumes "rs \<noteq> []" and "\<forall>r \<in> set rs. - DBL_MAX \<le> r"
  shows "Max (set (rs @ replicate m (- DBL_MAX))) = Max (set rs)"
proof (cases m)
  case 0
  then show ?thesis by simp
next
  case (Suc m')
  then have "set (rs @ replicate m (- DBL_MAX)) = insert (- DBL_MAX) (set rs)"
    by auto
  moreover from assms have "- DBL_MAX \<le> Max (set rs)"
    by (metis List.finite_set Max_ge_iff empty_iff last_in_set set_empty)
  ultimately show ?thesis
    using assms(1) by (simp add: max_def)
qed

lemma f_ref_of_run:
  assumes init: "spg_init G w a0 lambda k = (Hess, beta, s0)"
      and pass: "spg_pass k Hess beta n s0 = Some (s, False)"
      and hist: "fvals k Hess beta s0 (Suc n) = map Fin rs"
  shows "get_f_ref (update_old_fvals (s_iter s) (s_f s) (s_old_fvals s)) =
         Fin (Max (set (drop (Suc n - MEM_OLD_VALUES) rs)))"
proof -
  from hist have len: "length rs = Suc n"
    by (metis length_fvals length_map)
  let ?w = "drop (length rs - MEM_OLD_VALUES) rs"
  from spg_pass_memory [OF init pass]
  have "update_old_fvals (s_iter s) (s_f s) (s_old_fvals s) =
        update_old_fvals (length (fvals k Hess beta s0 n)) (s_f s)
          (memory_of (fvals k Hess beta s0 n))"
    by simp
  also have "\<dots> = memory_of (fvals k Hess beta s0 (Suc n))"
    by (simp only: update_memory fvals_Suc [OF pass])
  also have "\<dots> = map Fin (?w @ replicate (MEM_OLD_VALUES - length rs) (- DBL_MAX))"
    by (simp only: hist memory_of_Fin)
  finally have old: "update_old_fvals (s_iter s) (s_f s) (s_old_fvals s) =
      map Fin (?w @ replicate (MEM_OLD_VALUES - length rs) (- DBL_MAX))" .
  have "length (?w @ replicate (MEM_OLD_VALUES - length rs) (- DBL_MAX)) = MEM_OLD_VALUES"
    by simp
  from get_f_ref_Max [OF this] old
  have "get_f_ref (update_old_fvals (s_iter s) (s_f s) (s_old_fvals s)) =
        Fin (Max (set (?w @ replicate (MEM_OLD_VALUES - length rs) (- DBL_MAX))))"
    by simp
  moreover have "?w \<noteq> []"
    using len by (simp add: MEM_OLD_VALUES_def)
  moreover have "\<forall>r \<in> set ?w. - DBL_MAX \<le> r"
  proof
    fix r assume "r \<in> set ?w"
    then have "r \<in> set rs" by (rule in_set_dropD)
    then have "Fin r \<in> set (fvals k Hess beta s0 (Suc n))"
      by (simp add: hist)
    with fvals_is_double [OF init pass] have "is_double (Fin r)" by blast
    then show "- DBL_MAX \<le> r" by (simp add: is_double_def)
  qed
  ultimately show ?thesis
    using Max_with_sentinel [of ?w "MEM_OLD_VALUES - length rs"] len by simp
qed

lemma spg_iter_linesearch:
  assumes d: "d = GetProjStep (s_x s) (s_g s) (step_alpha s k) k"
      and gd: "GetDirectDerivative (s_g s) d k = Fin gd"
      and descent: "\<not> dgt (Fin gd) (dneg OPT_TOL)"
      and dHd: "ddot k d (dgemv k Hess d) = Fin dHd"
      and t: "init_t s k = Fin t"
  shows "spg_iter k Hess beta s =
     (case linesearch (s_f s) (get_f_ref (update_old_fvals (s_iter s) (s_f s) (s_old_fvals s)))
             (dmul (Fin t) (Fin gd)) (dmul (dmul (Fin dHd) (Fin t)) (Fin t))
             (dmul (Fin t) (NormOne d k)) (Fin t) (Fin 1) of
        None \<Rightarrow> None
      | Some r \<Rightarrow>
          Some (take_step k Hess beta
                  (s\<lparr>s_old_fvals := update_old_fvals (s_iter s) (s_f s) (s_old_fvals s)\<rparr>) d r))"
  using descent
  unfolding spg_iter_def Let_def d [symmetric] gd dHd t
  by simp

lemma linesearch_trial:
  assumes t: "0 \<le> t" "t \<le> 1"
      and a: "0 < a" "a \<le> 1"
      and gd: "\<bar>gd\<bar> \<le> DBL_MAX"
      and dHd: "\<bar>dHd\<bar> \<le> DBL_MAX"
  shows "linesearch f f_ref (dmul (Fin t) (Fin gd)) (dmul (dmul (Fin dHd) (Fin t)) (Fin t))
           N (Fin t) (Fin a) =
         (if spec_accept f f_ref a t gd dHd
          then Some (Fin (t * a), dmul N (Fin a), spec_delta_f a t gd dHd)
          else if dlt (dmul N (Fin (a / 2))) OPT_TOL \<or> t = 0
               then Some (Fin 0, Fin 0, Fin 0)
               else linesearch f f_ref (dmul (Fin t) (Fin gd))
                      (dmul (dmul (Fin dHd) (Fin t)) (Fin t)) N (Fin t) (Fin (a / 2)))"
proof -
  from a have a0: "0 \<le> a" by simp
  note lin = trial_linear [OF t a0 a(2) gd]
  note quad = trial_quad [OF t a0 a(2) dHd]
  have ta: "dmul (Fin t) (Fin a) = Fin (t * a)"
  proof -
    have "\<bar>t\<bar> \<le> DBL_MAX" using t by (simp add: DBL_MAX_def)
    then show ?thesis using a0 a(2) by (rule dmul_unit(1))
  qed
  have half: "dmul (Fin a) (Fin (1 / 2)) = Fin (a / 2)"
    using a by simp
  show ?thesis
    by (subst linesearch.simps)
      (simp only: Let_def lin quad ta half spec_accept_def spec_delta_f_def spec_linear_def
        spec_quad_def deq.simps dbl.inject)
qed

lemma linesearch_halvings:
  assumes t: "0 \<le> t" "t \<le> 1"
      and gd: "\<bar>gd\<bar> \<le> DBL_MAX"
      and dHd: "\<bar>dHd\<bar> \<le> DBL_MAX"
      and rejected: "\<forall>j<m. \<not> spec_accept f f_ref (1 / 2 ^ j) t gd dHd"
      and goes_on: "\<forall>j<m. \<not> dlt (dmul N (Fin (1 / 2 ^ Suc j))) OPT_TOL \<and> t \<noteq> 0"
  shows "linesearch f f_ref (dmul (Fin t) (Fin gd)) (dmul (dmul (Fin dHd) (Fin t)) (Fin t))
           N (Fin t) (Fin 1) =
         linesearch f f_ref (dmul (Fin t) (Fin gd)) (dmul (dmul (Fin dHd) (Fin t)) (Fin t))
           N (Fin t) (Fin (1 / 2 ^ m))"
  using rejected goes_on
proof (induction m)
  case 0
  show ?case by simp
next
  case (Suc m)
  have a: "0 < (1::real) / 2 ^ m" "(1::real) / 2 ^ m \<le> 1"
    by (simp_all add: divide_le_eq)
  from Suc.prems(1) have r: "\<not> spec_accept f f_ref (1 / 2 ^ m) t gd dHd"
    by simp
  from Suc.prems(2) [rule_format, OF lessI]
  have g: "\<not> dlt (dmul N (Fin (1 / 2 ^ Suc m))) OPT_TOL" "t \<noteq> 0"
    by simp_all
  have h: "(1::real) / 2 ^ m / 2 = 1 / 2 ^ Suc m" by simp
  from Suc.prems have "\<forall>j<m. \<not> spec_accept f f_ref (1 / 2 ^ j) t gd dHd"
    and "\<forall>j<m. \<not> dlt (dmul N (Fin (1 / 2 ^ Suc j))) OPT_TOL \<and> t \<noteq> 0"
    by (meson less_SucI)+
  then have "linesearch f f_ref (dmul (Fin t) (Fin gd))
       (dmul (dmul (Fin dHd) (Fin t)) (Fin t)) N (Fin t) (Fin 1) =
     linesearch f f_ref (dmul (Fin t) (Fin gd)) (dmul (dmul (Fin dHd) (Fin t)) (Fin t))
       N (Fin t) (Fin (1 / 2 ^ m))"
    by (rule Suc.IH)
  also have "\<dots> = linesearch f f_ref (dmul (Fin t) (Fin gd))
       (dmul (dmul (Fin dHd) (Fin t)) (Fin t)) N (Fin t) (Fin (1 / 2 ^ Suc m))"
    unfolding linesearch_trial [OF t a gd dHd] h using r g by simp
  finally show ?case .
qed

lemma memory_of_run:
  assumes init: "spg_init G w a0 lambda k = (Hess, beta, s0)"
      and pass: "spg_pass k Hess beta n s0 = Some (s, False)"
      and hist: "fvals k Hess beta s0 (Suc n) = map Fin rs"
  shows "update_old_fvals (s_iter s) (s_f s) (s_old_fvals s) = memory_of (map Fin rs)"
proof -
  from spg_pass_memory [OF init pass]
  have "update_old_fvals (s_iter s) (s_f s) (s_old_fvals s) =
        update_old_fvals (length (fvals k Hess beta s0 n)) (s_f s)
          (memory_of (fvals k Hess beta s0 n))"
    by simp
  also have "\<dots> = memory_of (fvals k Hess beta s0 (Suc n))"
    by (simp only: update_memory fvals_Suc [OF pass])
  finally show ?thesis by (simp only: hist)
qed

text \<open>What a pass hands to the step size selection, and the ranges of these numbers.\<close>

lemma pass_ingredients:
  assumes gd: "GetDirectDerivative (s_g s) d k = Fin gd"
      and dHd: "ddot k d (dgemv k Hess d) = Fin dHd"
      and t: "init_t s k = Fin t"
  shows "\<bar>gd\<bar> \<le> DBL_MAX" and "\<bar>dHd\<bar> \<le> DBL_MAX" and "0 \<le> t" and "t \<le> 1"
proof -
  have "is_double (GetDirectDerivative (s_g s) d k)"
    by (simp add: GetDirectDerivative_def)
  with gd show "\<bar>gd\<bar> \<le> DBL_MAX" by (simp add: is_double_def)
  have "is_double (ddot k d (dgemv k Hess d))" by simp
  with dHd show "\<bar>dHd\<bar> \<le> DBL_MAX" by (simp add: is_double_def)
  from t have "init_t s k \<noteq> NaN" by simp
  from init_t_range [OF this] t show "0 \<le> t" and "t \<le> 1" by simp_all
qed

text \<open>The run along the slope, pass by pass.\<close>

lemmas slope_eval =
  slope_state_def step_alpha_def GetAlpha_def GetProjStep_def ProjHyperCube_def
  GetDirectDerivative_def init_t_def NormOne_def update_old_fvals_def get_f_ref_def
  memory_of_def take_step_def GetGrad_def blas_defs MEM_OLD_VALUES_def dgt_def dle_def
  OPT_TOL_def SUFF_DESC_def lit_1e_10_def lit_1e_3_def Let_def upt_rec itermax_def dabs_def
  DBL_MAX_def replicate_numeral

lemma slope_init:
  "spg_init [Fin 0] [Fin (1 / 32)] [Fin 0] (Fin 0) (Suc 0) =
     ([Fin 0], [Fin (1 / 16)], slope_state 0)"
  by (simp add: spg_init_def SetInput_def GetGrad_def ObjValue_def blas_defs dsub_def Let_def
      slope_state_def memory_of_def)

lemma slope_step:
  assumes "n \<le> 9"
  shows "spg_iter (Suc 0) [Fin 0] [Fin (1 / 16)] (slope_state n) =
           Some (slope_state (Suc n), False)"
proof -
  from assms have "n \<in> {0, 1, 2, 3, 4, 5, 6, 7, 8, 9}" by auto
  then show ?thesis
    unfolding spg_iter_def Let_def
    apply (subst linesearch.simps)
    apply (elim insertE emptyE)
    apply (simp_all add: slope_eval)
    done
qed

lemma slope_pass:
  "n \<le> 10 \<Longrightarrow>
   spg_pass (Suc 0) [Fin 0] [Fin (1 / 16)] n (slope_state 0) = Some (slope_state n, False)"
proof (induction n)
  case 0
  show ?case by simp
next
  case (Suc n)
  then have "n \<le> 9" by simp
  from slope_step [OF this] Suc show ?case by simp
qed

lemma slope_fvals:
  "fvals (Suc 0) [Fin 0] [Fin (1 / 16)] (slope_state 0) (Suc 10) =
     map Fin [0, - (1 / 256), - (2 / 256), - (3 / 256), - (4 / 256), - (5 / 256), - (6 / 256),
              - (7 / 256), - (8 / 256), - (9 / 256), - (10 / 256)]"
proof -
  have "fvals (Suc 0) [Fin 0] [Fin (1 / 16)] (slope_state 0) (Suc 10) =
        map (\<lambda>i. Fin (- (real i / 256))) [0..<Suc 10]"
    unfolding fvals_def
  proof (rule map_cong [OF refl])
    fix i assume "i \<in> set [0..<Suc 10]"
    then have "i \<le> 10" by simp
    from slope_pass [OF this]
    show "(case spg_pass (Suc 0) [Fin 0] [Fin (1 / 16)] i (slope_state 0) of
             None \<Rightarrow> NaN | Some (s, b) \<Rightarrow> s_f s) = Fin (- (real i / 256))"
      by (simp add: slope_state_def)
  qed
  also have "\<dots> = map Fin [0, - (1 / 256), - (2 / 256), - (3 / 256), - (4 / 256), - (5 / 256),
              - (6 / 256), - (7 / 256), - (8 / 256), - (9 / 256), - (10 / 256)]"
    by (simp add: upt_rec)
  finally show ?thesis .
qed

lemma half_fvals: "fvals (Suc 0) [Fin 2] [Fin 1] s0_half (Suc 0) = map Fin [0]"
  by (simp add: fvals_def s0_half_def)



section \<open>A line search that finds no step\<close>

lemma daxpy_zero:
  assumes "length xs = n" and "\<forall>i<n. is_double (xs ! i)" and "\<forall>i<n. \<exists>r. d ! i = Fin r"
  shows "daxpy n (Fin 0) d xs = xs"
proof (rule nth_equalityI)
  show "length (daxpy n (Fin 0) d xs) = length xs" using assms(1) by simp
next
  fix i assume "i < length (daxpy n (Fin 0) d xs)"
  then have i: "i < n" by simp
  with assms(3) obtain r where r: "d ! i = Fin r" by blast
  from assms(2) i have "is_double (xs ! i)" by blast
  then have "dadd (Fin 0) (xs ! i) = xs ! i"
    by (rule dadd_zero_left)
  with i r show "daxpy n (Fin 0) d xs ! i = xs ! i" by simp
qed

text \<open>The passes that do not leave the loop can be skipped.\<close>

lemma spg_loop_skip:
  "spg_pass k Hess beta n s0 = Some (s, False) \<Longrightarrow>
   spg_loop k Hess beta s0 = spg_loop k Hess beta s"
proof (induction n arbitrary: s)
  case 0
  then show ?case by simp
next
  case (Suc n)
  from Suc.prems obtain s1 where p: "spg_pass k Hess beta n s0 = Some (s1, False)"
    and it: "spg_iter k Hess beta s1 = Some (s, False)"
    by (rule spg_pass_Suc)
  from Suc.IH [OF p] have "spg_loop k Hess beta s0 = spg_loop k Hess beta s1" .
  also from it have "\<dots> = spg_loop k Hess beta s"
    by (subst spg_loop.simps) simp
  finally show ?case .
qed

text \<open>The entries of the iterate are doubles when those of the starting point are.\<close>

lemma spg_pass_x_double:
  assumes init: "spg_init G w a0 lambda k = (Hess, beta, s0)"
      and start: "\<forall>i<k. is_double (a0 ! i)"
  shows "spg_pass k Hess beta n s0 = Some (s, b) \<Longrightarrow>
         length (s_x s) = k \<and> (\<forall>i<k. is_double (s_x s ! i))"
proof (induction n arbitrary: s b)
  case 0
  with init start show ?case
    by (auto simp: spg_init_def Let_def split: prod.splits)
next
  case (Suc n)
  from Suc.prems obtain s1 where p: "spg_pass k Hess beta n s0 = Some (s1, False)"
    and it: "spg_iter k Hess beta s1 = Some (s, b)"
    by (rule spg_pass_Suc)
  from spg_iter_cases [OF it] show ?case
  proof
    assume "s = s1 \<and> b"
    with Suc.IH [OF p] show ?thesis by simp
  next
    assume "\<exists>d r old. take_step k Hess beta (s1\<lparr>s_old_fvals := old\<rparr>) d r = (s, b)"
    then obtain d t n' r old
      where ts: "take_step k Hess beta (s1\<lparr>s_old_fvals := old\<rparr>) d (t, n', r) = (s, b)"
      by (metis prod_cases3)
    from take_step_fields(1) [OF ts] show ?thesis by simp
  qed
qed

text \<open>
  An exhausting solve: with \<open>G = 2\<^sup>3\<^sup>4\<close>, \<open>w = 1/2\<close>, \<open>lambda = 0\<close> and \<open>a0 = 0\<close> the first pass
  rejects the factors \<open>1, 1/2, \<dots>, 2\<^sup>-\<^sup>3\<^sup>3\<close>, and \<open>2\<^sup>-\<^sup>3\<^sup>4\<close> is below \<^verbatim>\<open>OPT_TOL\<close>.
\<close>

lemma init_steep:
  "spg_init [Fin (2 ^ 34)] [Fin (1 / 2)] [Fin 0] (Fin 0) (Suc 0) = ([Fin (2 ^ 35)], [Fin 1], s0_half)"
  by (simp add: spg_init_def SetInput_def GetGrad_def ObjValue_def blas_defs dsub_def Let_def
      s0_half_def)

lemma steep_rejected:
  assumes "j \<le> 33"
  shows "\<not> spec_accept (Fin 0) (Fin 0) (1 / 2 ^ j) 1 (- 1) (2 ^ 35)"
proof -
  define a :: real where "a = 1 / 2 ^ j"
  have pos: "0 < a" and le: "a \<le> 1"
    by (simp_all add: a_def divide_le_eq)
  from assms have "(2::real) ^ j \<le> 2 ^ 33"
    by (intro power_increasing) simp_all
  then have low: "1 / 2 ^ 33 \<le> a"
    unfolding a_def by (intro divide_left_mono) simp_all
  from pos le have sq: "a\<^sup>2 \<le> 1"
    by (simp add: power_le_one)
  have sq0: "0 \<le> a\<^sup>2" by simp
  have q: "a\<^sup>2 * 2 ^ 34 \<le> 2 ^ 34"
    using sq by simp
  have c: "0 < lit_1e_3" "lit_1e_3 \<le> 1"
    by (simp_all add: lit_1e_3_def)
  have e1: "dmul (Fin (1 / 2)) (Fin ((a * 1)\<^sup>2 * 2 ^ 35)) = Fin (a\<^sup>2 * 2 ^ 34)"
  proof -
    have "\<bar>a\<^sup>2 * 2 ^ 34\<bar> \<le> 2 ^ 1023"
      using q sq0 by simp
    then have "rnd (a\<^sup>2 * 2 ^ 34) = Fin (a\<^sup>2 * 2 ^ 34)" by (rule rnd_small)
    moreover have "1 / 2 * ((a * 1)\<^sup>2 * 2 ^ 35) = a\<^sup>2 * 2 ^ 34" by simp
    ultimately show ?thesis by (simp only: dmul.simps)
  qed
  have e2: "dadd (Fin (a\<^sup>2 * 2 ^ 34)) (Fin (a * 1 * - 1)) = Fin (a\<^sup>2 * 2 ^ 34 - a)"
  proof -
    have "0 \<le> a\<^sup>2 * 2 ^ 34" by simp
    with q pos le have "\<bar>a\<^sup>2 * 2 ^ 34 - a\<bar> \<le> 2 ^ 34 + 1"
      by linarith
    also have "\<dots> \<le> (2::real) ^ 1023" by simp
    finally have "rnd (a\<^sup>2 * 2 ^ 34 - a) = Fin (a\<^sup>2 * 2 ^ 34 - a)" by (rule rnd_small)
    moreover have "a\<^sup>2 * 2 ^ 34 + a * 1 * - 1 = a\<^sup>2 * 2 ^ 34 - a" by simp
    ultimately show ?thesis by (simp only: dadd.simps)
  qed
  have e3: "dadd (Fin 0) (Fin (a\<^sup>2 * 2 ^ 34 - a)) = Fin (a\<^sup>2 * 2 ^ 34 - a)"
    using is_double_dadd [of "Fin (a\<^sup>2 * 2 ^ 34)" "Fin (a * 1 * - 1)"]
    unfolding e2 by (rule dadd_zero_left)
  have e4: "dmul (Fin lit_1e_3) (Fin (a * 1 * - 1)) = Fin (- (lit_1e_3 * a))"
  proof -
    have "lit_1e_3 * a \<le> 1 * 1"
      using c pos le by (intro mult_mono) simp_all
    moreover have "0 \<le> lit_1e_3 * a" using c pos by simp
    ultimately have "\<bar>- (lit_1e_3 * a)\<bar> \<le> 2 ^ 1023" by simp
    then have "rnd (- (lit_1e_3 * a)) = Fin (- (lit_1e_3 * a))" by (rule rnd_small)
    moreover have "lit_1e_3 * (a * 1 * - 1) = - (lit_1e_3 * a)" by simp
    ultimately show ?thesis by (simp only: dmul.simps)
  qed
  have e5: "dadd (Fin 0) (Fin (- (lit_1e_3 * a))) = Fin (- (lit_1e_3 * a))"
    using is_double_rnd [of "lit_1e_3 * (a * 1 * - 1)"]
    unfolding dmul.simps [symmetric] e4 by (rule dadd_zero_left)
  have big: "2 \<le> 2 ^ 34 * a"
    using low by simp
  have "a * (1 - lit_1e_3) \<le> a * (2 ^ 34 * a)"
    using pos big c by (intro mult_left_mono) simp_all
  then have ineq: "\<not> a\<^sup>2 * 2 ^ 34 - a < - (lit_1e_3 * a)"
    by (simp add: power2_eq_square algebra_simps)
  show ?thesis
    unfolding a_def [symmetric] spec_accept_def spec_delta_f_def spec_linear_def spec_quad_def
      SUFF_DESC_def e1 e2 e3 e4 e5
    using ineq by simp
qed

lemma steep_goes_on:
  assumes "j < 33"
  shows "\<not> spec_exhausted (Fin 1) 1 (1 / 2 ^ Suc j)"
proof -
  from assms have "(2::real) ^ Suc j \<le> 2 ^ 33"
    by (intro power_increasing) simp_all
  then have low: "1 / 2 ^ 33 \<le> (1::real) / 2 ^ Suc j"
    by (intro divide_left_mono) simp_all
  have "lit_1e_10 \<le> 1 / 2 ^ 33"
    by (simp add: lit_1e_10_def)
  from this low have "lit_1e_10 \<le> 1 / 2 ^ Suc j" by (rule order_trans)
  moreover have "\<bar>(1::real) / 2 ^ Suc j\<bar> \<le> 2 ^ 1023"
  proof -
    have "(1::real) \<le> 2 ^ Suc j" by (rule one_le_power) simp
    then have "(1::real) / 2 ^ Suc j \<le> 1" by (simp add: divide_le_eq del: power_Suc)
    also have "\<dots> \<le> (2::real) ^ 1023" by simp
    finally show ?thesis by simp
  qed
  then have "rnd (1 / 2 ^ Suc j) = Fin (1 / 2 ^ Suc j)" by (rule rnd_small)
  ultimately show ?thesis
    unfolding spec_exhausted_def OPT_TOL_def
    by (simp del: power_Suc)
qed

lemma steep_exhausted: "spec_exhausted (Fin 1) 1 (1 / 2 ^ Suc 33)"
  by (simp add: spec_exhausted_def OPT_TOL_def lit_1e_10_def)



end
